theory Spec2Isabelle
  imports Main
begin

unbundle bit_operations_syntax

section \<open>The text subtitle decoder of \<^verbatim>\<open>modules/codec/subsdec.c\<close>\<close>

text \<open>
  The development embeds the markup parser of the decoder: \<^verbatim>\<open>AppendCharacter\<close>,
  \<^verbatim>\<open>ConsumeAttribute\<close>, \<^verbatim>\<open>GetColor\<close>, the style stack and \<^verbatim>\<open>ParseSubtitles\<close>.

  A C string is modelled by the list of the bytes that precede its terminator; a pointer
  into the subtitle is the list of the bytes from the pointer to the terminator, so that
  \<^verbatim>\<open>psz_subtitle++\<close> is \<open>tl\<close> and \<^verbatim>\<open>*psz_subtitle == 0\<close> is \<open>[]\<close>.
\<close>

subsection \<open>The C library functions the parser calls\<close>

abbreviation NUL :: char where "NUL \<equiv> CHR 0x00"
abbreviation NEWLINE :: char where "NEWLINE \<equiv> CHR 0x0A"
abbreviation DQUOTE :: char where "DQUOTE \<equiv> CHR 0x22"
abbreviation SQUOTE :: char where "SQUOTE \<equiv> CHR 0x27"
abbreviation BACKSLASH :: char where "BACKSLASH \<equiv> CHR 0x5C"

text \<open>The bytes of a buffer up to its first terminator: what \<^verbatim>\<open>%s\<close> and every
  string function see of it.\<close>

definition c_str :: "string \<Rightarrow> string" where
  "c_str buf = takeWhile (\<lambda>c. c \<noteq> NUL) buf"

text \<open>\<^verbatim>\<open>p[i]\<close> for a pointer \<open>p\<close> into a string, at an index up to the terminator.\<close>

definition at :: "string \<Rightarrow> nat \<Rightarrow> char" where
  "at p i = (if i < length p then p ! i else NUL)"

text \<open>The character classes of \<^verbatim>\<open>ctype.h\<close> in the C locale.\<close>

definition isalpha :: "char \<Rightarrow> bool" where
  "isalpha c = (let n = (of_char c :: nat) in (65 \<le> n \<and> n \<le> 90) \<or> (97 \<le> n \<and> n \<le> 122))"

definition isspace :: "char \<Rightarrow> bool" where
  "isspace c = (let n = (of_char c :: nat) in n = 32 \<or> (9 \<le> n \<and> n \<le> 13))"

definition isdigit :: "char \<Rightarrow> bool" where
  "isdigit c = (let n = (of_char c :: nat) in 48 \<le> n \<and> n \<le> 57)"

definition tolower :: "char \<Rightarrow> char" where
  "tolower c = (let n = (of_char c :: nat) in if 65 \<le> n \<and> n \<le> 90 then char_of (n + 32) else c)"

text \<open>\<^verbatim>\<open>strncasecmp\<close>, \<^verbatim>\<open>strcasecmp\<close> and \<^verbatim>\<open>strncmp\<close> return the difference of
  the first two bytes that differ (after \<^verbatim>\<open>tolower\<close> for the first two), 0 when the
  strings agree up to the terminator or on the first \<open>n\<close> bytes.\<close>

fun strncasecmp :: "string \<Rightarrow> string \<Rightarrow> nat \<Rightarrow> int" where
  "strncasecmp a b 0 = 0"
| "strncasecmp [] [] (Suc n) = 0"
| "strncasecmp [] (y # ys) (Suc n) = - int (of_char (tolower y))"
| "strncasecmp (x # xs) [] (Suc n) = int (of_char (tolower x))"
| "strncasecmp (x # xs) (y # ys) (Suc n) =
     (if tolower x = tolower y then strncasecmp xs ys n
      else int (of_char (tolower x)) - int (of_char (tolower y)))"

fun strcasecmp :: "string \<Rightarrow> string \<Rightarrow> int" where
  "strcasecmp [] [] = 0"
| "strcasecmp [] (y # ys) = - int (of_char (tolower y))"
| "strcasecmp (x # xs) [] = int (of_char (tolower x))"
| "strcasecmp (x # xs) (y # ys) =
     (if tolower x = tolower y then strcasecmp xs ys
      else int (of_char (tolower x)) - int (of_char (tolower y)))"

fun strncmp :: "string \<Rightarrow> string \<Rightarrow> nat \<Rightarrow> int" where
  "strncmp a b 0 = 0"
| "strncmp [] [] (Suc n) = 0"
| "strncmp [] (y # ys) (Suc n) = - int (of_char y)"
| "strncmp (x # xs) [] (Suc n) = int (of_char x)"
| "strncmp (x # xs) (y # ys) (Suc n) =
     (if x = y then strncmp xs ys n else int (of_char x) - int (of_char y))"

text \<open>\<^verbatim>\<open>strchr(p, c)\<close> for a byte \<open>c\<close> other than the terminator: the pointer to the
  first \<open>c\<close>, or \<^verbatim>\<open>NULL\<close>.\<close>

definition strchr :: "string \<Rightarrow> char \<Rightarrow> string option" where
  "strchr p c = (if c \<in> set p then Some (dropWhile (\<lambda>x. x \<noteq> c) p) else None)"

text \<open>\<^verbatim>\<open>atoi\<close>: optional white space, an optional sign, then decimal digits. A value
  outside \<^verbatim>\<open>int\<close> is undefined in C; the model keeps the mathematical value.\<close>

definition atoi :: "string \<Rightarrow> int" where
  "atoi s =
     (let s1 = dropWhile isspace s;
          neg = (at s1 0 = CHR ''-'');
          s2 = (if at s1 0 = CHR ''-'' \<or> at s1 0 = CHR ''+'' then tl s1 else s1);
          v = foldl (\<lambda>acc d. acc * 10 + (int (of_char d) - 48)) 0 (takeWhile isdigit s2)
      in if neg then - v else v)"

subsection \<open>Memory\<close>

text \<open>
  Segments and styles live in a store indexed by addresses, since the style stack and
  the segments share style objects and the segments are linked by pointers. \<open>brk\<close> is
  the next address \<^verbatim>\<open>malloc\<close> hands out. \<open>allocs\<close> lists the outcomes of the
  allocations to come (\<open>False\<close>: the allocation fails); once the list is used up every
  allocation succeeds.

  The integers of a style and the alignment are C \<^verbatim>\<open>int\<close>s. The parser ors flag bits
  into them and stores colours of the table and results of \<^verbatim>\<open>atoi\<close>; no arithmetic on
  them can wrap, and they are modelled by \<open>int\<close>.
\<close>

type_synonym addr = nat

datatype error = NULL_dereference | Dangling_pointer

text \<open>The fields of \<^verbatim>\<open>text_style_t\<close> that this file reads or writes. The type is
  declared in a header outside this file.\<close>

record text_style =
  psz_fontname :: "string option"
  psz_monofontname :: "string option"
  i_style_flags :: int
  i_font_size :: int
  i_font_color :: int
  i_font_alpha :: int
  i_outline_color :: int
  i_outline_width :: int
  i_shadow_color :: int
  i_shadow_width :: int
  i_background_color :: int

record text_segment =
  psz_text :: "string option"
  style :: "addr option"
  p_next :: "addr option"

record heap =
  segments :: "addr \<rightharpoonup> text_segment"
  styles :: "addr \<rightharpoonup> text_style"
  brk :: addr
  allocs :: "bool list"

text \<open>One allocation: it takes the next outcome of \<open>allocs\<close>.\<close>

definition alloc :: "heap \<Rightarrow> bool \<times> heap" where
  "alloc h = (case allocs h of [] \<Rightarrow> (True, h) | b # bs \<Rightarrow> (b, h\<lparr>allocs := bs\<rparr>))"

text \<open>What the file takes from the headers of the player and from the memory around the
  subtitle: the style flag bits, the alignment bits, the style that \<^verbatim>\<open>text_style_New\<close>
  returns, and the byte that lies after the terminator of the subtitle.\<close>

record env =
  STYLE_BOLD :: int
  STYLE_ITALIC :: int
  STYLE_UNDERLINE :: int
  STYLE_STRIKEOUT :: int
  SUBPICTURE_ALIGN_LEFT :: int
  SUBPICTURE_ALIGN_RIGHT :: int
  SUBPICTURE_ALIGN_TOP :: int
  SUBPICTURE_ALIGN_BOTTOM :: int
  default_style :: text_style
  beyond :: char

subsection \<open>\<^verbatim>\<open>AppendCharacter\<close>\<close>

text \<open>
  \<^verbatim>\<open>asprintf(&tmp, "%s%c", p_segment->psz_text, c)\<close> allocates the old text (read up
  to its terminator) followed by the byte \<open>c\<close>. When it fails the segment is left as it
  is and the function returns \<open>False\<close>.
\<close>

definition AppendCharacter :: "heap \<Rightarrow> addr option \<Rightarrow> char \<Rightarrow> error + (bool \<times> heap)" where
  "AppendCharacter h p_segment c =
     (case p_segment of
        None \<Rightarrow> Inl NULL_dereference
      | Some a \<Rightarrow>
         (case segments h a of
            None \<Rightarrow> Inl Dangling_pointer
          | Some sg \<Rightarrow>
             (case psz_text sg of
                None \<Rightarrow> Inl NULL_dereference
              | Some t \<Rightarrow>
                 (case alloc h of
                    (False, h1) \<Rightarrow> Inr (False, h1)
                  | (True, h1) \<Rightarrow>
                      Inr (True, h1\<lparr>segments := (segments h1)(a \<mapsto> sg\<lparr>psz_text := Some (c_str t @ [c])\<rparr>)\<rparr>)))))"

subsection \<open>\<^verbatim>\<open>ConsumeAttribute\<close>\<close>

text \<open>
  The result is the oracle of allocations after the call, and \<open>None\<close> for \<^verbatim>\<open>NULL\<close> or
  the attribute name, the attribute value and the new value of \<^verbatim>\<open>*ppsz_subtitle\<close>.
  The cursor is written back only on the path that returns a name.
\<close>

definition ConsumeAttribute :: "heap \<Rightarrow> string \<Rightarrow> heap \<times> (string \<times> string \<times> string) option" where
  "ConsumeAttribute h ppsz_subtitle =
     (let s1 = dropWhile (\<lambda>c. c = CHR '' '') ppsz_subtitle;
          psz_attribute_name = takeWhile isalpha s1;
          s2 = dropWhile isalpha s1
      in if s2 = [] then (h, None)
         else case alloc h of
            (False, h1) \<Rightarrow> (h1, None)
          | (True, h1) \<Rightarrow>
             (let s3 = dropWhile (\<lambda>c. c \<noteq> CHR ''='') s2;
                  s4 = dropWhile isspace s3;
                  delimiter = (if at s4 0 = SQUOTE \<or> at s4 0 = DQUOTE then at s4 0 else NUL);
                  s5 = dropWhile isspace s4;
                  inside = (\<lambda>c. (delimiter \<noteq> NUL \<and> c \<noteq> delimiter) \<or> (delimiter = NUL \<and> \<not> isalpha c));
                  psz_attribute_value = takeWhile inside s5;
                  s6 = dropWhile inside s5
              in if s6 = [] then (h1, None)
                 else case alloc h1 of
                    (False, h2) \<Rightarrow> (h2, None)
                  | (True, h2) \<Rightarrow> (h2, Some (psz_attribute_name, psz_attribute_value, s6))))"

subsection \<open>\<^verbatim>\<open>GetColor\<close>\<close>

text \<open>The table \<^verbatim>\<open>p_html_colors\<close>, in the order of the source, without its closing
  \<^verbatim>\<open>{ NULL, 0 }\<close> entry.\<close>

definition p_html_colors :: "(string \<times> int) list" where
  "p_html_colors =
    [(''Aqua'', 0x00FFFF), (''Black'', 0x000000), (''Blue'', 0x0000FF),
     (''Fuchsia'', 0xFF00FF), (''Gray'', 0x808080), (''Green'', 0x008000),
     (''Lime'', 0x00FF00), (''Maroon'', 0x800000), (''Navy'', 0x000080), (''Olive'', 0x808000),
     (''Purple'', 0x800080), (''Red'', 0xFF0000), (''Silver'', 0xC0C0C0), (''Teal'', 0x008080),
     (''White'', 0xFFFFFF), (''Yellow'', 0xFFFF00), (''AliceBlue'', 0xF0F8FF),
     (''AntiqueWhite'', 0xFAEBD7), (''Aqua'', 0x00FFFF), (''Aquamarine'', 0x7FFFD4),
     (''Azure'', 0xF0FFFF), (''Beige'', 0xF5F5DC), (''Bisque'', 0xFFE4C4),
     (''Black'', 0x000000), (''BlanchedAlmond'', 0xFFEBCD), (''Blue'', 0x0000FF),
     (''BlueViolet'', 0x8A2BE2), (''Brown'', 0xA52A2A), (''BurlyWood'', 0xDEB887),
     (''CadetBlue'', 0x5F9EA0), (''Chartreuse'', 0x7FFF00), (''Chocolate'', 0xD2691E),
     (''Coral'', 0xFF7F50), (''CornflowerBlue'', 0x6495ED), (''Cornsilk'', 0xFFF8DC),
     (''Crimson'', 0xDC143C), (''Cyan'', 0x00FFFF), (''DarkBlue'', 0x00008B),
     (''DarkCyan'', 0x008B8B), (''DarkGoldenRod'', 0xB8860B), (''DarkGray'', 0xA9A9A9),
     (''DarkGrey'', 0xA9A9A9), (''DarkGreen'', 0x006400), (''DarkKhaki'', 0xBDB76B),
     (''DarkMagenta'', 0x8B008B), (''DarkOliveGreen'', 0x556B2F), (''Darkorange'', 0xFF8C00),
     (''DarkOrchid'', 0x9932CC), (''DarkRed'', 0x8B0000), (''DarkSalmon'', 0xE9967A),
     (''DarkSeaGreen'', 0x8FBC8F), (''DarkSlateBlue'', 0x483D8B),
     (''DarkSlateGray'', 0x2F4F4F), (''DarkSlateGrey'', 0x2F4F4F),
     (''DarkTurquoise'', 0x00CED1), (''DarkViolet'', 0x9400D3), (''DeepPink'', 0xFF1493),
     (''DeepSkyBlue'', 0x00BFFF), (''DimGray'', 0x696969), (''DimGrey'', 0x696969),
     (''DodgerBlue'', 0x1E90FF), (''FireBrick'', 0xB22222), (''FloralWhite'', 0xFFFAF0),
     (''ForestGreen'', 0x228B22), (''Fuchsia'', 0xFF00FF), (''Gainsboro'', 0xDCDCDC),
     (''GhostWhite'', 0xF8F8FF), (''Gold'', 0xFFD700), (''GoldenRod'', 0xDAA520),
     (''Gray'', 0x808080), (''Grey'', 0x808080), (''Green'', 0x008000),
     (''GreenYellow'', 0xADFF2F), (''HoneyDew'', 0xF0FFF0), (''HotPink'', 0xFF69B4),
     (''IndianRed'', 0xCD5C5C), (''Indigo'', 0x4B0082), (''Ivory'', 0xFFFFF0),
     (''Khaki'', 0xF0E68C), (''Lavender'', 0xE6E6FA), (''LavenderBlush'', 0xFFF0F5),
     (''LawnGreen'', 0x7CFC00), (''LemonChiffon'', 0xFFFACD), (''LightBlue'', 0xADD8E6),
     (''LightCoral'', 0xF08080), (''LightCyan'', 0xE0FFFF),
     (''LightGoldenRodYellow'', 0xFAFAD2), (''LightGray'', 0xD3D3D3),
     (''LightGrey'', 0xD3D3D3), (''LightGreen'', 0x90EE90), (''LightPink'', 0xFFB6C1),
     (''LightSalmon'', 0xFFA07A), (''LightSeaGreen'', 0x20B2AA), (''LightSkyBlue'', 0x87CEFA),
     (''LightSlateGray'', 0x778899), (''LightSlateGrey'', 0x778899),
     (''LightSteelBlue'', 0xB0C4DE), (''LightYellow'', 0xFFFFE0), (''Lime'', 0x00FF00),
     (''LimeGreen'', 0x32CD32), (''Linen'', 0xFAF0E6), (''Magenta'', 0xFF00FF),
     (''Maroon'', 0x800000), (''MediumAquaMarine'', 0x66CDAA), (''MediumBlue'', 0x0000CD),
     (''MediumOrchid'', 0xBA55D3), (''MediumPurple'', 0x9370D8),
     (''MediumSeaGreen'', 0x3CB371), (''MediumSlateBlue'', 0x7B68EE),
     (''MediumSpringGreen'', 0x00FA9A), (''MediumTurquoise'', 0x48D1CC),
     (''MediumVioletRed'', 0xC71585), (''MidnightBlue'', 0x191970), (''MintCream'', 0xF5FFFA),
     (''MistyRose'', 0xFFE4E1), (''Moccasin'', 0xFFE4B5), (''NavajoWhite'', 0xFFDEAD),
     (''Navy'', 0x000080), (''OldLace'', 0xFDF5E6), (''Olive'', 0x808000),
     (''OliveDrab'', 0x6B8E23), (''Orange'', 0xFFA500), (''OrangeRed'', 0xFF4500),
     (''Orchid'', 0xDA70D6), (''PaleGoldenRod'', 0xEEE8AA), (''PaleGreen'', 0x98FB98),
     (''PaleTurquoise'', 0xAFEEEE), (''PaleVioletRed'', 0xD87093), (''PapayaWhip'', 0xFFEFD5),
     (''PeachPuff'', 0xFFDAB9), (''Peru'', 0xCD853F), (''Pink'', 0xFFC0CB),
     (''Plum'', 0xDDA0DD), (''PowderBlue'', 0xB0E0E6), (''Purple'', 0x800080),
     (''Red'', 0xFF0000), (''RosyBrown'', 0xBC8F8F), (''RoyalBlue'', 0x4169E1),
     (''SaddleBrown'', 0x8B4513), (''Salmon'', 0xFA8072), (''SandyBrown'', 0xF4A460),
     (''SeaGreen'', 0x2E8B57), (''SeaShell'', 0xFFF5EE), (''Sienna'', 0xA0522D),
     (''Silver'', 0xC0C0C0), (''SkyBlue'', 0x87CEEB), (''SlateBlue'', 0x6A5ACD),
     (''SlateGray'', 0x708090), (''SlateGrey'', 0x708090), (''Snow'', 0xFFFAFA),
     (''SpringGreen'', 0x00FF7F), (''SteelBlue'', 0x4682B4), (''Tan'', 0xD2B48C),
     (''Teal'', 0x008080), (''Thistle'', 0xD8BFD8), (''Tomato'', 0xFF6347),
     (''Turquoise'', 0x40E0D0), (''Violet'', 0xEE82EE), (''Wheat'', 0xF5DEB3),
     (''White'', 0xFFFFFF), (''WhiteSmoke'', 0xF5F5F5), (''Yellow'', 0xFFFF00),
     (''YellowGreen'', 0x9ACD32)]"

text \<open>The \<^verbatim>\<open>for\<close> loop of \<^verbatim>\<open>GetColor\<close> over the entries that remain.\<close>

fun GetColor_from :: "(string \<times> int) list \<Rightarrow> string \<Rightarrow> int" where
  "GetColor_from [] psz_color = 0"
| "GetColor_from ((psz_name, i_value) # rest) psz_color =
     (if strcasecmp psz_color psz_name = 0 then i_value else GetColor_from rest psz_color)"

definition GetColor :: "string \<Rightarrow> int" where
  "GetColor psz_color = GetColor_from p_html_colors psz_color"

subsection \<open>Segments and styles\<close>

text \<open>
  Modelled from the spec: \<^verbatim>\<open>text_segment_New\<close> is defined outside this file. The spec
  has it allocate a segment with no style and no successor, whose text is the text given
  and the empty text when none is given (``allocates a new empty-text segment''), or
  signal an allocation failure.
\<close>

definition text_segment_New :: "heap \<Rightarrow> string option \<Rightarrow> addr option \<times> heap" where
  "text_segment_New h psz =
     (case alloc h of
        (False, h1) \<Rightarrow> (None, h1)
      | (True, h1) \<Rightarrow>
          (Some (brk h1),
           h1\<lparr>segments := (segments h1)(brk h1 \<mapsto>
                 \<lparr>psz_text = Some (case psz of None \<Rightarrow> [] | Some t \<Rightarrow> c_str t),
                  style = None, p_next = None\<rparr>),
              brk := Suc (brk h1)\<rparr>))"

text \<open>
  Modelled from the spec: \<^verbatim>\<open>text_style_New\<close> is defined outside this file. The spec
  has it synthesize a default style; the values of its fields are those of
  \<open>default_style\<close>.
\<close>

definition text_style_New :: "env \<Rightarrow> heap \<Rightarrow> addr option \<times> heap" where
  "text_style_New E h =
     (case alloc h of
        (False, h1) \<Rightarrow> (None, h1)
      | (True, h1) \<Rightarrow>
          (Some (brk h1), h1\<lparr>styles := (styles h1)(brk h1 \<mapsto> default_style E), brk := Suc (brk h1)\<rparr>))"

text \<open>
  Modelled from the spec: \<^verbatim>\<open>text_style_Duplicate\<close> is defined outside this file. The
  spec has it copy the style field by field into a new object.
\<close>

definition text_style_Duplicate :: "heap \<Rightarrow> addr \<Rightarrow> error + (addr option \<times> heap)" where
  "text_style_Duplicate h p =
     (case styles h p of
        None \<Rightarrow> Inl Dangling_pointer
      | Some s \<Rightarrow>
         (case alloc h of
            (False, h1) \<Rightarrow> Inr (None, h1)
          | (True, h1) \<Rightarrow>
              Inr (Some (brk h1), h1\<lparr>styles := (styles h1)(brk h1 \<mapsto> s), brk := Suc (brk h1)\<rparr>)))"

text \<open>
  Modelled from the spec: \<^verbatim>\<open>text_segment_ChainDelete\<close> is defined outside this file.
  The spec has it walk the \<^verbatim>\<open>p_next\<close> links and free each segment with its text and
  its style. The walk is bounded by the number of addresses handed out.
\<close>

fun chain_delete :: "nat \<Rightarrow> heap \<Rightarrow> addr option \<Rightarrow> heap" where
  "chain_delete 0 h p = h"
| "chain_delete (Suc n) h None = h"
| "chain_delete (Suc n) h (Some a) =
     (case segments h a of
        None \<Rightarrow> h
      | Some sg \<Rightarrow>
          chain_delete n
            (h\<lparr>segments := (segments h)(a := None),
               styles := (case style sg of None \<Rightarrow> styles h | Some p \<Rightarrow> (styles h)(p := None))\<rparr>)
            (p_next sg))"

definition text_segment_ChainDelete :: "heap \<Rightarrow> addr option \<Rightarrow> heap" where
  "text_segment_ChainDelete h p = chain_delete (brk h) h p"

text \<open>\<^verbatim>\<open>p_segment->style->FIELD = ...\<close>: both pointers are dereferenced.\<close>

definition update_style :: "heap \<Rightarrow> addr option \<Rightarrow> (text_style \<Rightarrow> text_style) \<Rightarrow> error + heap" where
  "update_style h p_segment f =
     (case p_segment of
        None \<Rightarrow> Inl NULL_dereference
      | Some a \<Rightarrow>
         (case segments h a of
            None \<Rightarrow> Inl Dangling_pointer
          | Some sg \<Rightarrow>
             (case style sg of
                None \<Rightarrow> Inl NULL_dereference
              | Some p \<Rightarrow>
                 (case styles h p of
                    None \<Rightarrow> Inl Dangling_pointer
                  | Some s \<Rightarrow> Inr (h\<lparr>styles := (styles h)(p \<mapsto> f s)\<rparr>)))))"

text \<open>\<^verbatim>\<open>p_new->style = p_style; p_segment->p_next = p_new;\<close> where \<open>p_new\<close> is
  not \<^verbatim>\<open>NULL\<close>.\<close>

definition link_segment :: "heap \<Rightarrow> addr option \<Rightarrow> addr \<Rightarrow> addr option \<Rightarrow> error + heap" where
  "link_segment h p_segment p_new p_style =
     (case segments h p_new of
        None \<Rightarrow> Inl Dangling_pointer
      | Some new \<Rightarrow>
         (let h1 = h\<lparr>segments := (segments h)(p_new \<mapsto> new\<lparr>style := p_style\<rparr>)\<rparr>
          in case p_segment of
               None \<Rightarrow> Inl NULL_dereference
             | Some a \<Rightarrow>
                (case segments h1 a of
                   None \<Rightarrow> Inl Dangling_pointer
                 | Some sg \<Rightarrow> Inr (h1\<lparr>segments := (segments h1)(a \<mapsto> sg\<lparr>p_next := Some p_new\<rparr>)\<rparr>))))"

subsection \<open>The style stack\<close>

text \<open>The stack \<^verbatim>\<open>style_stack_t\<close> is the list of the style pointers of its frames,
  top first; \<^verbatim>\<open>NULL\<close> is the empty list.\<close>

definition DuplicateAndPushStyle :: "env \<Rightarrow> heap \<Rightarrow> addr list \<Rightarrow> error + (addr option \<times> addr list \<times> heap)" where
  "DuplicateAndPushStyle E h pp_stack =
     (case (case pp_stack of [] \<Rightarrow> Inr (text_style_New E h) | p_top # _ \<Rightarrow> text_style_Duplicate h p_top) of
        Inl e \<Rightarrow> Inl e
      | Inr (None, h1) \<Rightarrow> Inr (None, pp_stack, h1)
      | Inr (Some p_dup, h1) \<Rightarrow>
         (case alloc h1 of
            (False, h2) \<Rightarrow> Inr (None, pp_stack, h2\<lparr>styles := (styles h2)(p_dup := None)\<rparr>)
          | (True, h2) \<Rightarrow> Inr (Some p_dup, p_dup # pp_stack, h2)))"

definition PopStyle :: "addr list \<Rightarrow> error + addr list" where
  "PopStyle pp_stack = (case pp_stack of [] \<Rightarrow> Inl NULL_dereference | p_old # below \<Rightarrow> Inr below)"

definition NewTextSegmentPushStyle ::
    "env \<Rightarrow> heap \<Rightarrow> addr option \<Rightarrow> addr list \<Rightarrow> error + (addr option \<times> addr list \<times> heap)" where
  "NewTextSegmentPushStyle E h p_segment pp_stack =
     (case text_segment_New h None of
        (None, h1) \<Rightarrow> Inr (None, pp_stack, h1)
      | (Some p_new, h1) \<Rightarrow>
         (case DuplicateAndPushStyle E h1 pp_stack of
            Inl e \<Rightarrow> Inl e
          | Inr (p_style, stack1, h2) \<Rightarrow>
             (case link_segment h2 p_segment p_new p_style of
                Inl e \<Rightarrow> Inl e
              | Inr h3 \<Rightarrow> Inr (Some p_new, stack1, h3))))"

definition NewTextSegmentPopStyle ::
    "env \<Rightarrow> heap \<Rightarrow> addr option \<Rightarrow> addr list \<Rightarrow> error + (addr option \<times> addr list \<times> heap)" where
  "NewTextSegmentPopStyle E h p_segment pp_stack =
     (case text_segment_New h None of
        (None, h1) \<Rightarrow> Inr (None, pp_stack, h1)
      | (Some p_new, h1) \<Rightarrow>
         (case PopStyle pp_stack of
            Inl e \<Rightarrow> Inl e
          | Inr stack1 \<Rightarrow>
             (case (case stack1 of [] \<Rightarrow> Inr (text_style_New E h1) | p_top # _ \<Rightarrow> text_style_Duplicate h1 p_top) of
                Inl e \<Rightarrow> Inl e
              | Inr (p_dup, h2) \<Rightarrow>
                 (case link_segment h2 p_segment p_new p_dup of
                    Inl e \<Rightarrow> Inl e
                  | Inr h3 \<Rightarrow> Inr (Some p_new, stack1, h3)))))"

subsection \<open>The attributes of a \<^verbatim>\<open><font\<close> tag\<close>

text \<open>The chain of tests on the attribute name in the \<^verbatim>\<open><font\<close> branch.\<close>

definition apply_attribute :: "heap \<Rightarrow> addr option \<Rightarrow> string \<Rightarrow> string \<Rightarrow> error + heap" where
  "apply_attribute h p_segment psz_attribute_name psz_attribute_value =
     (if strcasecmp psz_attribute_name ''face'' = 0 then
        update_style h p_segment (\<lambda>s. s\<lparr>psz_fontname := Some psz_attribute_value\<rparr>)
      else if strcasecmp psz_attribute_name ''family'' = 0 then
        update_style h p_segment (\<lambda>s. s\<lparr>psz_monofontname := Some psz_attribute_value\<rparr>)
      else if strcasecmp psz_attribute_name ''size'' = 0 then
        update_style h p_segment (\<lambda>s. s\<lparr>i_font_size := atoi psz_attribute_value\<rparr>)
      else if strcasecmp psz_attribute_name ''color'' = 0 then
        update_style h p_segment (\<lambda>s. s\<lparr>i_font_color := GetColor psz_attribute_value\<rparr>)
      else if strcasecmp psz_attribute_name ''outline-color'' = 0 then
        update_style h p_segment (\<lambda>s. s\<lparr>i_outline_color := GetColor psz_attribute_value\<rparr>)
      else if strcasecmp psz_attribute_name ''shadow-color'' = 0 then
        update_style h p_segment (\<lambda>s. s\<lparr>i_shadow_color := GetColor psz_attribute_value\<rparr>)
      else if strcasecmp psz_attribute_name ''outline-level'' = 0 then
        update_style h p_segment (\<lambda>s. s\<lparr>i_outline_width := atoi psz_attribute_value\<rparr>)
      else if strcasecmp psz_attribute_name ''shadow-level'' = 0 then
        update_style h p_segment (\<lambda>s. s\<lparr>i_shadow_width := atoi psz_attribute_value\<rparr>)
      else if strcasecmp psz_attribute_name ''back-color'' = 0 then
        update_style h p_segment (\<lambda>s. s\<lparr>i_background_color := GetColor psz_attribute_value\<rparr>)
      else if strcasecmp psz_attribute_name ''alpha'' = 0 then
        update_style h p_segment (\<lambda>s. s\<lparr>i_font_alpha := atoi psz_attribute_value\<rparr>)
      else Inr h)"

lemma length_dropWhile_le_aux: "length (dropWhile P xs) \<le> length xs"
  by (induction xs) auto

lemma ConsumeAttribute_advances:
  assumes "ConsumeAttribute h s = (h', Some (name, val, s'))"
  shows "length s' < length s"
proof -
  define s1 where "s1 = dropWhile (\<lambda>c. c = CHR '' '') s"
  define s2 where "s2 = dropWhile isalpha s1"
  define s3 where "s3 = dropWhile (\<lambda>c. c \<noteq> CHR ''='') s2"
  define s4 where "s4 = dropWhile isspace s3"
  define s5 where "s5 = dropWhile isspace s4"
  define delimiter where "delimiter = (if at s4 0 = SQUOTE \<or> at s4 0 = DQUOTE then at s4 0 else NUL)"
  define inside where
    "inside = (\<lambda>c. (delimiter \<noteq> NUL \<and> c \<noteq> delimiter) \<or> (delimiter = NUL \<and> \<not> isalpha c))"
  from assms have s': "s' = dropWhile inside s5" and ne: "s' \<noteq> []"
    unfolding ConsumeAttribute_def Let_def
    by (auto simp: s1_def s2_def s3_def s4_def s5_def delimiter_def inside_def
        split: if_splits prod.splits bool.splits)
  have le: "length s5 \<le> length s"
    unfolding s5_def s4_def s3_def s2_def s1_def
    by (meson length_dropWhile_le_aux order_trans)
  from ne s' have s5ne: "s5 \<noteq> []" by auto
  have s3ne: "s3 \<noteq> []" using s5ne unfolding s5_def s4_def by auto
  then have hd3: "hd s3 = CHR ''=''"
    unfolding s3_def using hd_dropWhile[of "\<lambda>c. c \<noteq> CHR ''=''" s2] by auto
  have nsp: "\<not> isspace (CHR ''='')" by (simp add: isspace_def)
  have s43: "s4 = s3" unfolding s4_def using s3ne hd3 nsp by (cases s3) auto
  have s54: "s5 = s3" unfolding s5_def s43 using s3ne hd3 nsp by (cases s3) auto
  have del: "delimiter = NUL" unfolding delimiter_def s43 using s3ne hd3 by (cases s3) (auto simp: at_def)
  have "inside (CHR ''='')" unfolding inside_def del by (simp add: isalpha_def)
  then have "length (dropWhile inside s5) < length s5"
    using s3ne hd3 unfolding s54 by (cases s3) (auto simp: less_Suc_eq_le length_dropWhile_le_aux)
  with le s' show ?thesis by simp
qed

text \<open>The \<^verbatim>\<open>while\<close> loop over the attributes of a \<^verbatim>\<open><font\<close> tag: the memory and
  the cursor after the loop.\<close>

function font_attributes :: "heap \<Rightarrow> addr option \<Rightarrow> string \<Rightarrow> error + (heap \<times> string)" where
  "font_attributes h p_segment s =
     (case ConsumeAttribute h s of
        (h1, None) \<Rightarrow> Inr (h1, s)
      | (h1, Some (psz_attribute_name, psz_attribute_value, s1)) \<Rightarrow>
         (case apply_attribute h1 p_segment psz_attribute_name psz_attribute_value of
            Inl e \<Rightarrow> Inl e
          | Inr h2 \<Rightarrow> font_attributes h2 p_segment s1))"
  by pat_completeness auto
termination
  by (relation "measure (\<lambda>(h, p, s). length s)") (auto dest: ConsumeAttribute_advances[OF sym])

declare font_attributes.simps [simp del]

subsection \<open>\<^verbatim>\<open>ParseSubtitles\<close>\<close>

text \<open>
  The local variables of \<^verbatim>\<open>ParseSubtitles\<close>, the integer \<^verbatim>\<open>*pi_align\<close> of the caller
  and the memory. \<open>oob\<close> is not a variable of the source: it records that a byte after the
  terminator of the subtitle has been read.
\<close>

record pstate =
  mem :: heap
  psz_subtitle :: string
  p_segment :: "addr option"
  p_first_segment :: "addr option"
  p_stack :: "addr list"
  b_has_align :: bool
  pi_align :: int
  oob :: bool

text \<open>One turn of the \<^verbatim>\<open>while\<close> loop either goes on or jumps to \<^verbatim>\<open>fail\<close>.\<close>

datatype flow = Continue pstate | Goto_fail pstate

text \<open>\<^verbatim>\<open>if ( !AppendCharacter( p_segment, c ) ) goto fail; psz_subtitle += n;\<close>\<close>

definition append_or_fail :: "pstate \<Rightarrow> char \<Rightarrow> nat \<Rightarrow> error + flow" where
  "append_or_fail st c n =
     (case AppendCharacter (mem st) (p_segment st) c of
        Inl e \<Rightarrow> Inl e
      | Inr (False, h1) \<Rightarrow> Inr (Goto_fail (st\<lparr>mem := h1\<rparr>))
      | Inr (True, h1) \<Rightarrow> Inr (Continue (st\<lparr>mem := h1, psz_subtitle := drop n (psz_subtitle st)\<rparr>)))"

text \<open>\<^verbatim>\<open>AppendCharacter( p_segment, c ); psz_subtitle = p;\<close> with the result of the
  call dropped.\<close>

definition append_unchecked :: "pstate \<Rightarrow> char \<Rightarrow> string \<Rightarrow> error + flow" where
  "append_unchecked st c p =
     (case AppendCharacter (mem st) (p_segment st) c of
        Inl e \<Rightarrow> Inl e
      | Inr (ok, h1) \<Rightarrow> Inr (Continue (st\<lparr>mem := h1, psz_subtitle := p\<rparr>)))"

text \<open>\<^verbatim>\<open>p_segment = NewTextSegmentPushStyle( p_segment, &p_stack );
  p_segment->style->i_style_flags |= flag; psz_subtitle += n;\<close>\<close>

definition push_flag :: "env \<Rightarrow> pstate \<Rightarrow> int \<Rightarrow> nat \<Rightarrow> error + pstate" where
  "push_flag E st flag n =
     (case NewTextSegmentPushStyle E (mem st) (p_segment st) (p_stack st) of
        Inl e \<Rightarrow> Inl e
      | Inr (p_new, stack1, h1) \<Rightarrow>
         (case update_style h1 p_new (\<lambda>s. s\<lparr>i_style_flags := i_style_flags s OR flag\<rparr>) of
            Inl e \<Rightarrow> Inl e
          | Inr h2 \<Rightarrow>
              Inr (st\<lparr>mem := h2, p_segment := p_new, p_stack := stack1,
                      psz_subtitle := drop n (psz_subtitle st)\<rparr>)))"

text \<open>The \<^verbatim>\<open><font\<close> branch: a new segment, the attributes, then the cursor moves to
  the next \<^verbatim>\<open>>\<close> or to the terminator.\<close>

definition font_tag :: "env \<Rightarrow> pstate \<Rightarrow> error + pstate" where
  "font_tag E st =
     (case NewTextSegmentPushStyle E (mem st) (p_segment st) (p_stack st) of
        Inl e \<Rightarrow> Inl e
      | Inr (p_new, stack1, h1) \<Rightarrow>
         (case font_attributes h1 p_new (drop 6 (psz_subtitle st)) of
            Inl e \<Rightarrow> Inl e
          | Inr (h2, s1) \<Rightarrow>
              Inr (st\<lparr>mem := h2, p_segment := p_new, p_stack := stack1,
                      psz_subtitle := dropWhile (\<lambda>c. c \<noteq> CHR ''>'') s1\<rparr>)))"

text \<open>The \<^verbatim>\<open></\<close> branch. \<open>p_old_pos\<close> is the cursor on entry, which stands on the
  \<^verbatim>\<open><\<close>; \<open>tag_length\<close> counts the bytes from there to the next \<^verbatim>\<open>>\<close>.\<close>

definition closing_tag :: "env \<Rightarrow> pstate \<Rightarrow> error + flow" where
  "closing_tag E st =
     (let p_old_pos = psz_subtitle st;
          tag_length = length (takeWhile (\<lambda>c. c \<noteq> CHR ''>'') p_old_pos);
          s1 = dropWhile (\<lambda>c. c \<noteq> CHR ''>'') p_old_pos
      in if strncasecmp p_old_pos ''b'' tag_length = 0 \<or>
            strncasecmp p_old_pos ''i'' tag_length = 0 \<or>
            strncasecmp p_old_pos ''u'' tag_length = 0 \<or>
            strncasecmp p_old_pos ''s'' tag_length = 0 \<or>
            strncasecmp p_old_pos ''font'' tag_length = 0
         then
           (case NewTextSegmentPopStyle E (mem st) (p_segment st) (p_stack st) of
              Inl e \<Rightarrow> Inl e
            | Inr (p_new, stack1, h1) \<Rightarrow>
                Inr (Continue (st\<lparr>mem := h1, p_segment := p_new, p_stack := stack1,
                                  psz_subtitle := s1\<rparr>)))
         else append_unchecked st (CHR ''<'') (drop 1 p_old_pos))"

text \<open>\<^verbatim>\<open>psz_subtitle = strchr( psz_subtitle, '}' ) + 1;\<close>\<close>

definition after_brace :: "pstate \<Rightarrow> error + pstate" where
  "after_brace st =
     (case strchr (psz_subtitle st) (CHR ''}'') of
        None \<Rightarrow> Inl NULL_dereference
      | Some q \<Rightarrow> Inr (st\<lparr>psz_subtitle := drop 1 q\<rparr>))"

definition pi_vertical :: "env \<Rightarrow> int list" where
  "pi_vertical E = [SUBPICTURE_ALIGN_BOTTOM E, 0, SUBPICTURE_ALIGN_TOP E]"

definition pi_horizontal :: "env \<Rightarrow> int list" where
  "pi_horizontal E = [SUBPICTURE_ALIGN_LEFT E, 0, SUBPICTURE_ALIGN_RIGHT E]"

text \<open>The test for a forced alignment: \<^verbatim>\<open>{\anN}\<close> with \<open>N\<close> from 1 to 9.\<close>

definition forced_alignment :: "string \<Rightarrow> bool" where
  "forced_alignment s =
     (strncmp s ([CHR ''{'', BACKSLASH] @ ''an'') 4 = 0 \<and>
      (49::nat) \<le> of_char (at s 4) \<and> (of_char (at s 4) :: nat) \<le> 57 \<and> at s 5 = CHR ''}'')"

text \<open>The \<^verbatim>\<open>{\\<close> branch.\<close>

definition ssa_block :: "env \<Rightarrow> pstate \<Rightarrow> error + pstate" where
  "ssa_block E st =
     (let s = psz_subtitle st;
          st1 = (if \<not> b_has_align st \<and> forced_alignment s then
                   (let i_id = (of_char (at s 4) :: nat) - 49
                    in st\<lparr>b_has_align := True,
                          pi_align := pi_vertical E ! (i_id div 3) OR pi_horizontal E ! (i_id mod 3)\<rparr>)
                 else st)
      in after_brace st1)"

text \<open>One of the three tests of the \<^verbatim>\<open>{Y:\<close> branch: \<^verbatim>\<open>if( psz_subtitle[3] == c )\<close>
  opens a segment with the flag and moves the cursor by one.\<close>

definition y_flag :: "env \<Rightarrow> pstate \<Rightarrow> char \<Rightarrow> int \<Rightarrow> error + pstate" where
  "y_flag E st c flag = (if at (psz_subtitle st) 3 = c then push_flag E st flag 1 else Inr st)"

definition y_block :: "env \<Rightarrow> pstate \<Rightarrow> error + pstate" where
  "y_block E st =
     (case y_flag E st (CHR ''i'') (STYLE_ITALIC E) of
        Inl e \<Rightarrow> Inl e
      | Inr st1 \<Rightarrow>
         (case y_flag E st1 (CHR ''b'') (STYLE_BOLD E) of
            Inl e \<Rightarrow> Inl e
          | Inr st2 \<Rightarrow>
             (case y_flag E st2 (CHR ''u'') (STYLE_UNDERLINE E) of
                Inl e \<Rightarrow> Inl e
              | Inr st3 \<Rightarrow> after_brace st3)))"

text \<open>The branches of a cursor that stands on \<^verbatim>\<open><\<close>.\<close>

definition tag :: "env \<Rightarrow> pstate \<Rightarrow> error + flow" where
  "tag E st =
     (let s = psz_subtitle st
      in if strncasecmp s ''<br/>'' 5 = 0 then append_or_fail st NEWLINE 5
         else if strncasecmp s ''<b>'' 3 = 0 then map_sum id Continue (push_flag E st (STYLE_BOLD E) 3)
         else if strncasecmp s ''<i>'' 3 = 0 then map_sum id Continue (push_flag E st (STYLE_ITALIC E) 3)
         else if strncasecmp s ''<u>'' 3 = 0 then map_sum id Continue (push_flag E st (STYLE_UNDERLINE E) 3)
         else if strncasecmp s ''<s>'' 3 = 0 then map_sum id Continue (push_flag E st (STYLE_STRIKEOUT E) 3)
         else if strncasecmp s ''<font '' 6 = 0 then map_sum id Continue (font_tag E st)
         else if strncmp s ''</'' 2 = 0 then closing_tag E st
         else append_unchecked st (CHR ''<'') (drop 1 s))"

text \<open>
  The body of the \<^verbatim>\<open>while\<close> loop. The indexed reads \<^verbatim>\<open>psz_subtitle[i]\<close> of the first
  two tests on \<^verbatim>\<open>{\<close> come after a test that the byte before them is not the
  terminator. The third test reads \<^verbatim>\<open>psz_subtitle[2]\<close> whatever \<^verbatim>\<open>psz_subtitle[1]\<close>
  is: when that is the terminator the byte read is \<open>beyond E\<close>, and \<open>oob\<close> is set.
\<close>

definition body :: "env \<Rightarrow> pstate \<Rightarrow> error + flow" where
  "body E st =
     (let s = psz_subtitle st
      in if at s 0 = NEWLINE then append_or_fail st NEWLINE 1
         else if at s 0 = CHR ''<'' then tag E st
         else if at s 0 = CHR ''{'' \<and> at s 1 = BACKSLASH \<and> strchr s (CHR ''}'') \<noteq> None then
           map_sum id Continue (ssa_block E st)
         else if at s 0 = CHR ''{'' \<and> (at s 1 = CHR ''Y'' \<or> at s 1 = CHR ''y'') \<and>
                 at s 2 = CHR '':'' \<and> strchr s (CHR ''}'') \<noteq> None then
           map_sum id Continue (y_block E st)
         else if at s 0 = CHR ''{'' then
           (let st1 = st\<lparr>oob := oob st \<or> length s < 2\<rparr>
            in if (if length s < 2 then beyond E else at s 2) = CHR '':'' \<and>
                  strchr s (CHR ''}'') \<noteq> None
               then map_sum id Continue (after_brace st1)
               else append_unchecked st1 (at s 0) (drop 1 s))
         else append_unchecked st (at s 0) (drop 1 s))"

text \<open>Every turn of the loop that goes on moves the cursor forward.\<close>

lemma append_or_fail_cursor:
  "append_or_fail st c n = Inr (Continue st1) \<Longrightarrow> psz_subtitle st1 = drop n (psz_subtitle st)"
  by (auto simp: append_or_fail_def split: sum.splits prod.splits bool.splits)

lemma append_unchecked_cursor:
  "append_unchecked st c p = Inr fl \<Longrightarrow> \<exists>st1. fl = Continue st1 \<and> psz_subtitle st1 = p"
  by (auto simp: append_unchecked_def split: sum.splits prod.splits)

lemma push_flag_cursor:
  "push_flag E st flag n = Inr st1 \<Longrightarrow> psz_subtitle st1 = drop n (psz_subtitle st)"
  by (auto simp: push_flag_def split: sum.splits prod.splits)

lemma font_attributes_length:
  "font_attributes h p s = Inr (h', s') \<Longrightarrow> length s' \<le> length s"
proof (induction h p s rule: font_attributes.induct)
  case (1 h p s)
  show ?case
  proof (cases "ConsumeAttribute h s")
    case (Pair h1 r)
    show ?thesis
    proof (cases r)
      case None
      with Pair "1.prems" show ?thesis by (simp add: font_attributes.simps[of h p s])
    next
      case (Some t)
      obtain name val s1 where t: "t = (name, val, s1)" by (cases t) auto
      from Pair Some t have ca: "ConsumeAttribute h s = (h1, Some (name, val, s1))" by simp
      from ConsumeAttribute_advances[OF ca] have lt: "length s1 < length s" .
      from "1.prems" ca obtain h2 where
        aa: "apply_attribute h1 p name val = Inr h2" and
        rec: "font_attributes h2 p s1 = Inr (h', s')"
        by (auto simp: font_attributes.simps[of h p s] split: sum.splits)
      from "1.IH"[OF ca[symmetric] refl refl refl aa rec] lt show ?thesis by simp
    qed
  qed
qed

lemma font_tag_cursor:
  "font_tag E st = Inr st1 \<Longrightarrow> length (psz_subtitle st1) \<le> length (psz_subtitle st) - 6"
proof -
  assume a: "font_tag E st = Inr st1"
  then obtain h1 p h2 s1 where fa: "font_attributes h1 p (drop 6 (psz_subtitle st)) = Inr (h2, s1)"
    and eq: "psz_subtitle st1 = dropWhile (\<lambda>c. c \<noteq> CHR ''>'') s1"
    by (auto simp: font_tag_def split: sum.splits prod.splits)
  from font_attributes_length[OF fa] have "length s1 \<le> length (psz_subtitle st) - 6" by simp
  with eq length_dropWhile_le_aux[of "\<lambda>c. c \<noteq> CHR ''>''" s1] show ?thesis by simp
qed

lemma after_brace_cursor:
  "after_brace st = Inr st1 \<Longrightarrow> length (psz_subtitle st1) < length (psz_subtitle st)"
proof -
  assume a: "after_brace st = Inr st1"
  then have in_s: "CHR ''}'' \<in> set (psz_subtitle st)"
    and eq: "psz_subtitle st1 = drop 1 (dropWhile (\<lambda>x. x \<noteq> CHR ''}'') (psz_subtitle st))"
    by (auto simp: after_brace_def strchr_def split: option.splits if_splits)
  from in_s have "dropWhile (\<lambda>x. x \<noteq> CHR ''}'') (psz_subtitle st) \<noteq> []" by auto
  then have "length (drop 1 (dropWhile (\<lambda>x. x \<noteq> CHR ''}'') (psz_subtitle st)))
      < length (dropWhile (\<lambda>x. x \<noteq> CHR ''}'') (psz_subtitle st))" by (cases "dropWhile (\<lambda>x. x \<noteq> CHR ''}'') (psz_subtitle st)") auto
  with eq length_dropWhile_le_aux[of "\<lambda>x. x \<noteq> CHR ''}''" "psz_subtitle st"] show ?thesis by simp
qed

lemma ssa_block_cursor:
  "ssa_block E st = Inr st1 \<Longrightarrow> length (psz_subtitle st1) < length (psz_subtitle st)"
  by (auto simp: ssa_block_def Let_def split: if_splits dest!: after_brace_cursor)

lemma y_flag_cursor:
  "y_flag E st c f = Inr st1 \<Longrightarrow> length (psz_subtitle st1) \<le> length (psz_subtitle st)"
  by (auto simp: y_flag_def split: if_splits dest!: push_flag_cursor)

lemma y_block_cursor:
  "y_block E st = Inr st1 \<Longrightarrow> length (psz_subtitle st1) < length (psz_subtitle st)"
  by (fastforce simp: y_block_def split: sum.splits dest!: y_flag_cursor after_brace_cursor)

lemma closing_tag_cursor:
  assumes "closing_tag E st = Inr (Continue st1)" "psz_subtitle st \<noteq> []" "hd (psz_subtitle st) \<noteq> CHR ''>''"
  shows "length (psz_subtitle st1) < length (psz_subtitle st)"
proof -
  obtain x xs where s: "psz_subtitle st = x # xs" and x: "x \<noteq> CHR ''>''"
    using assms(2,3) by (cases "psz_subtitle st") auto
  have "length (dropWhile (\<lambda>c. c \<noteq> CHR ''>'') (x # xs)) < length (x # xs)"
    using x by (simp add: less_Suc_eq_le length_dropWhile_le_aux)
  with assms(1) s show ?thesis
    by (auto simp: closing_tag_def Let_def split: if_splits sum.splits prod.splits
        dest!: append_unchecked_cursor)
qed

lemma tag_cursor:
  assumes "tag E st = Inr (Continue st1)" "at (psz_subtitle st) 0 = CHR ''<''"
  shows "length (psz_subtitle st1) < length (psz_subtitle st)"
proof -
  obtain xs where s: "psz_subtitle st = CHR ''<'' # xs"
    using assms(2) by (cases "psz_subtitle st") (auto simp: at_def)
  have ct: "closing_tag E st = Inr (Continue st1) \<Longrightarrow> length (psz_subtitle st1) < Suc (length xs)"
    using closing_tag_cursor[of E st st1] s by simp
  from assms(1) show ?thesis
    unfolding tag_def Let_def
    by (auto simp: s map_sum_def split: if_splits sum.splits 
        dest!: append_or_fail_cursor push_flag_cursor font_tag_cursor append_unchecked_cursor
        dest: ct)
qed

lemma body_cursor:
  assumes "body E st = Inr (Continue st1)" "psz_subtitle st \<noteq> []"
  shows "length (psz_subtitle st1) < length (psz_subtitle st)"
  using assms unfolding body_def Let_def
  by (auto simp: map_sum_def split: if_splits sum.splits
        dest!: append_or_fail_cursor append_unchecked_cursor tag_cursor ssa_block_cursor y_block_cursor
         after_brace_cursor)

text \<open>The \<^verbatim>\<open>while( *psz_subtitle )\<close> loop. \<open>Continue\<close> is the state in which the loop
  is left at the terminator.\<close>

function ParseSubtitles_loop :: "env \<Rightarrow> pstate \<Rightarrow> error + flow" where
  "ParseSubtitles_loop E st =
     (if psz_subtitle st = [] then Inr (Continue st)
      else case body E st of
             Inl e \<Rightarrow> Inl e
           | Inr (Goto_fail st1) \<Rightarrow> Inr (Goto_fail st1)
           | Inr (Continue st1) \<Rightarrow> ParseSubtitles_loop E st1)"
  by pat_completeness auto
termination
  by (relation "measure (\<lambda>(E, st). length (psz_subtitle st))") (auto dest: body_cursor)

declare ParseSubtitles_loop.simps [simp del]

text \<open>The state in which the loop is entered: the first segment has been created with
  the text \<^verbatim>\<open>""\<close>. The memory holds what the call allocates; \<open>al\<close> gives the outcomes
  of its allocations.\<close>

definition initial_state :: "bool list \<Rightarrow> int \<Rightarrow> string \<Rightarrow> pstate" where
  "initial_state al align psz =
     (case text_segment_New \<lparr>segments = Map.empty, styles = Map.empty, brk = 0, allocs = al\<rparr> (Some []) of
        (p, h) \<Rightarrow>
          \<lparr>mem = h, psz_subtitle = c_str psz, p_segment = p, p_first_segment = p, p_stack = [],
           b_has_align = False, pi_align = align, oob = False\<rparr>)"

text \<open>\<^verbatim>\<open>ParseSubtitles\<close> returns the pointer to the first segment, or \<^verbatim>\<open>NULL\<close> after
  the segments have been deleted at \<^verbatim>\<open>fail\<close>; the state gives the memory and
  \<^verbatim>\<open>*pi_align\<close> after the call.\<close>

definition ParseSubtitles :: "env \<Rightarrow> bool list \<Rightarrow> int \<Rightarrow> string \<Rightarrow> error + (addr option \<times> pstate)" where
  "ParseSubtitles E al align psz =
     (case ParseSubtitles_loop E (initial_state al align psz) of
        Inl e \<Rightarrow> Inl e
      | Inr (Continue st) \<Rightarrow> Inr (p_first_segment st, st)
      | Inr (Goto_fail st) \<Rightarrow>
          Inr (None, st\<lparr>mem := text_segment_ChainDelete (mem st) (p_first_segment st)\<rparr>))"

subsection \<open>Reading a chain of segments\<close>

text \<open>\<open>is_chain segs p as\<close>: following \<^verbatim>\<open>p_next\<close> from \<open>p\<close> visits the addresses \<open>as\<close>,
  all allocated, and then reaches \<^verbatim>\<open>NULL\<close>.\<close>

fun is_chain :: "(addr \<rightharpoonup> text_segment) \<Rightarrow> addr option \<Rightarrow> addr list \<Rightarrow> bool" where
  "is_chain segs p [] = (p = None)"
| "is_chain segs p (a # as) =
     (p = Some a \<and> (case segs a of None \<Rightarrow> False | Some sg \<Rightarrow> is_chain segs (p_next sg) as))"

text \<open>The text and the style of the segments of a chain, in order; the walk is bounded by
  the number of addresses handed out.\<close>

fun chain_view :: "nat \<Rightarrow> heap \<Rightarrow> addr option \<Rightarrow> (string option \<times> text_style option) list" where
  "chain_view 0 h p = []"
| "chain_view (Suc n) h None = []"
| "chain_view (Suc n) h (Some a) =
     (case segments h a of
        None \<Rightarrow> []
      | Some sg \<Rightarrow>
          (psz_text sg, case style sg of None \<Rightarrow> None | Some p \<Rightarrow> styles h p)
            # chain_view n h (p_next sg))"

definition parsed_segments :: "error + (addr option \<times> pstate) \<Rightarrow> error + (string option \<times> text_style option) list option" where
  "parsed_segments r =
     (case r of
        Inl e \<Rightarrow> Inl e
      | Inr (None, st) \<Rightarrow> Inr None
      | Inr (Some a, st) \<Rightarrow> Inr (Some (chain_view (brk (mem st)) (mem st) (Some a))))"

subsection \<open>The invariant of the loop\<close>

text \<open>The segment at \<open>a\<close> exists and its text is not \<^verbatim>\<open>NULL\<close>.\<close>

definition has_text :: "heap \<Rightarrow> addr \<Rightarrow> bool" where
  "has_text h a = (case segments h a of None \<Rightarrow> False | Some sg \<Rightarrow> psz_text sg \<noteq> None)"

text \<open>The segments \<open>as\<close> are the chain from \<open>first\<close>; they are distinct, allocated, with
  a text, and \<open>cur\<close> is the last of them.\<close>

definition chain_ok :: "heap \<Rightarrow> addr option \<Rightarrow> addr option \<Rightarrow> addr list \<Rightarrow> bool" where
  "chain_ok h first cur as \<longleftrightarrow>
     as \<noteq> [] \<and> first = Some (hd as) \<and> cur = Some (last as) \<and> distinct as \<and>
     is_chain (segments h) first as \<and> list_all (\<lambda>a. a < brk h \<and> has_text h a) as"

text \<open>No allocation to come fails, and the styles of the stack exist.\<close>

definition heap_ok :: "heap \<Rightarrow> addr list \<Rightarrow> bool" where
  "heap_ok h stack \<longleftrightarrow> False \<notin> set (allocs h) \<and> list_all (\<lambda>p. styles h p \<noteq> None) stack"

definition parser_inv :: "addr list \<Rightarrow> pstate \<Rightarrow> bool" where
  "parser_inv as st \<longleftrightarrow>
     heap_ok (mem st) (p_stack st) \<and> chain_ok (mem st) (p_first_segment st) (p_segment st) as"

text \<open>The segment \<open>cur\<close> exists and points to a style that exists.\<close>

definition styled :: "heap \<Rightarrow> addr option \<Rightarrow> bool" where
  "styled h cur =
     (case cur of None \<Rightarrow> False
      | Some n \<Rightarrow> (case segments h n of None \<Rightarrow> False
          | Some sg \<Rightarrow> (case style sg of None \<Rightarrow> False | Some p \<Rightarrow> styles h p \<noteq> None)))"

subsection \<open>Alignment directives\<close>

fun flow_state :: "flow \<Rightarrow> pstate" where
  "flow_state (Continue st) = st"
| "flow_state (Goto_fail st) = st"
















subsection \<open>Unknown tags\<close>

text \<open>The cursor stands on a \<^verbatim>\<open><\<close> and every test of the \<^verbatim>\<open><\<close> branch fails.\<close>

definition unknown_open_tag :: "string \<Rightarrow> bool" where
  "unknown_open_tag s \<longleftrightarrow>
     at s 0 = CHR ''<'' \<and> strncasecmp s ''<br/>'' 5 \<noteq> 0 \<and> strncasecmp s ''<b>'' 3 \<noteq> 0 \<and>
     strncasecmp s ''<i>'' 3 \<noteq> 0 \<and> strncasecmp s ''<u>'' 3 \<noteq> 0 \<and> strncasecmp s ''<s>'' 3 \<noteq> 0 \<and>
     strncasecmp s ''<font '' 6 \<noteq> 0 \<and> strncmp s ''</'' 2 \<noteq> 0"

text \<open>The cursor stands on a character that starts no markup.\<close>

definition ordinary_character :: "string \<Rightarrow> bool" where
  "ordinary_character s \<longleftrightarrow> s \<noteq> [] \<and> at s 0 \<noteq> NEWLINE \<and> at s 0 \<noteq> CHR ''<'' \<and> at s 0 \<noteq> CHR ''{''"

text \<open>The state after a successful \<^verbatim>\<open>AppendCharacter\<close> on the segment \<open>sg\<close> at \<open>a\<close> that
  makes its text \<open>t\<close>, and \<^verbatim>\<open>psz_subtitle++\<close>.\<close>

definition appended :: "pstate \<Rightarrow> addr \<Rightarrow> text_segment \<Rightarrow> string \<Rightarrow> pstate" where
  "appended st a sg t =
     st\<lparr>mem := (snd (alloc (mem st)))\<lparr>segments := (segments (mem st))(a \<mapsto> sg\<lparr>psz_text := Some t\<rparr>)\<rparr>,
        psz_subtitle := tl (psz_subtitle st)\<rparr>"

subsection \<open>Concrete parameters\<close>

text \<open>One choice of the parameters on which the model is run: a style with no flag set
  and white text, flag and alignment bits that are distinct powers of two.\<close>

definition example_style :: text_style where
  "example_style =
     \<lparr>psz_fontname = None, psz_monofontname = None, i_style_flags = 0, i_font_size = 22,
      i_font_color = 0xFFFFFF, i_font_alpha = 255, i_outline_color = 0, i_outline_width = 1,
      i_shadow_color = 0, i_shadow_width = 0, i_background_color = 0\<rparr>"

definition example_env :: env where
  "example_env =
     \<lparr>STYLE_BOLD = 1, STYLE_ITALIC = 2, STYLE_UNDERLINE = 32, STYLE_STRIKEOUT = 64,
      SUBPICTURE_ALIGN_LEFT = 1, SUBPICTURE_ALIGN_RIGHT = 2, SUBPICTURE_ALIGN_TOP = 4,
      SUBPICTURE_ALIGN_BOTTOM = 8, default_style = example_style, beyond = CHR ''x''\<rparr>"

text \<open>A memory with one segment of text \<^verbatim>\<open>"ab"\<close>, in which the next allocation fails.\<close>

definition example_heap :: heap where
  "example_heap =
     \<lparr>segments = [0 \<mapsto> \<lparr>psz_text = Some ''ab'', style = None, p_next = None\<rparr>],
      styles = Map.empty, brk = 1, allocs = [False, True]\<rparr>"

section \<open>Properties\<close>

subsection \<open>Appending a character\<close>

lemma c_str_id: "NUL \<notin> set t \<Longrightarrow> c_str t = t"
  by (auto simp: c_str_def)

text \<open>
  C9. For every segment that exists and whose text is a string \<open>t\<close> (the bytes before
  its terminator) and for every character \<open>c\<close>, \<^verbatim>\<open>AppendCharacter\<close> returns \<open>True\<close>
  exactly when its allocation succeeds. When it returns \<open>True\<close> the text of the segment
  is \<open>t\<close> followed by the one character \<open>c\<close>; when it returns \<open>False\<close> the segment is
  unchanged. No other segment and no style changes.
\<close>

theorem AppendCharacter_appends_or_leaves:
  assumes "segments h a = Some sg" and "psz_text sg = Some t" and "NUL \<notin> set t"
  shows "case AppendCharacter h (Some a) c of
           Inl e \<Rightarrow> False
         | Inr (ok, h1) \<Rightarrow>
             ok = fst (alloc h) \<and>
             styles h1 = styles h \<and> brk h1 = brk h \<and>
             (\<forall>b. b \<noteq> a \<longrightarrow> segments h1 b = segments h b) \<and>
             (if ok then segments h1 a = Some (sg\<lparr>psz_text := Some (t @ [c])\<rparr>)
              else segments h1 a = Some sg)"
  using assms
  by (auto simp: AppendCharacter_def alloc_def c_str_id split: list.splits bool.splits)

theorem AppendCharacter_appends_or_leaves_witness:
  "AppendCharacter (example_heap\<lparr>allocs := []\<rparr>) (Some 0) (CHR ''c'') =
     Inr (True, example_heap\<lparr>segments := [0 \<mapsto> \<lparr>psz_text = Some ''abc'', style = None, p_next = None\<rparr>],
                            allocs := []\<rparr>) \<and>
   AppendCharacter example_heap (Some 0) (CHR ''c'') = Inr (False, example_heap\<lparr>allocs := [True]\<rparr>)"
proof -
  let ?sg = "\<lparr>psz_text = Some ''ab'', style = None, p_next = None\<rparr>"
  have s1: "segments (example_heap\<lparr>allocs := []\<rparr>) 0 = Some ?sg" by (simp add: example_heap_def)
  have s2: "segments example_heap 0 = Some ?sg" by (simp add: example_heap_def)
  have t: "psz_text ?sg = Some ''ab''" by simp
  have n: "NUL \<notin> set ''ab''" by simp
  from AppendCharacter_appends_or_leaves[OF s1 t n, of "CHR ''c''"]
       AppendCharacter_appends_or_leaves[OF s2 t n, of "CHR ''c''"]
  show ?thesis
    by (simp add: AppendCharacter_def example_heap_def alloc_def c_str_def)
qed

subsection \<open>The chain that \<^verbatim>\<open>ParseSubtitles\<close> returns\<close>

lemma alloc_ok: "False \<notin> set (allocs h) \<Longrightarrow> alloc h = (True, h\<lparr>allocs := tl (allocs h)\<rparr>)"
  by (cases "allocs h") (auto simp: alloc_def)

lemma set_tl_subset: "False \<notin> set xs \<Longrightarrow> False \<notin> set (tl xs)"
  by (cases xs) auto

lemma is_chain_cong:
  "is_chain segs p as \<Longrightarrow>
   (\<And>b. b \<in> set as \<Longrightarrow> map_option p_next (segs' b) = map_option p_next (segs b)) \<Longrightarrow>
   is_chain segs' p as"
proof (induction as arbitrary: p)
  case Nil then show ?case by simp
next
  case (Cons a as)
  from Cons.prems(1) obtain sg where p: "p = Some a" and sg: "segs a = Some sg"
    and rest: "is_chain segs (p_next sg) as"
    by (auto split: option.splits)
  from Cons.prems(2)[of a] sg obtain sg' where sg': "segs' a = Some sg'" and nx: "p_next sg' = p_next sg"
    by (cases "segs' a") auto
  have "is_chain segs' (p_next sg) as"
    by (rule Cons.IH[OF rest]) (simp add: Cons.prems(2))
  with p sg' nx show ?case by simp
qed

lemma is_chain_last_next:
  "is_chain segs p as \<Longrightarrow> as \<noteq> [] \<Longrightarrow> \<exists>sg. segs (last as) = Some sg \<and> p_next sg = None"
proof (induction as arbitrary: p)
  case Nil then show ?case by simp
next
  case (Cons a as)
  then show ?case by (cases as) (auto split: option.splits)
qed

lemma is_chain_snoc:
  assumes "is_chain segs p as" and "as \<noteq> []" and "distinct as" and "n \<notin> set as"
    and "segs' n = Some new" and "p_next new = None"
    and "segs (last as) = Some sg" and "segs' (last as) = Some (sg\<lparr>p_next := Some n\<rparr>)"
    and "\<And>b. b \<in> set as \<Longrightarrow> b \<noteq> last as \<Longrightarrow> map_option p_next (segs' b) = map_option p_next (segs b)"
  shows "is_chain segs' p (as @ [n])"
  using assms
proof (induction as arbitrary: p)
  case Nil then show ?case by simp
next
  case (Cons a as)
  show ?case
  proof (cases "as = []")
    case True
    with Cons.prems show ?thesis by (auto split: option.splits)
  next
    case False
    from Cons.prems(1) obtain sga where p: "p = Some a" and sga: "segs a = Some sga"
      and rest: "is_chain segs (p_next sga) as"
      by (auto split: option.splits)
    from False Cons.prems(3) have ne: "a \<noteq> last as" by auto
    from Cons.prems(9)[of a] ne False sga obtain sga' where sga': "segs' a = Some sga'" and nx: "p_next sga' = p_next sga"
      by (cases "segs' a") auto
    have "is_chain segs' (p_next sga) (as @ [n])"
      using Cons.prems False by (intro Cons.IH[OF rest]) auto
    with p sga' nx show ?thesis by simp
  qed
qed

lemma chain_ok_cong:
  assumes "chain_ok h first cur as"
    and "brk h \<le> brk h1"
    and "\<And>b. b \<in> set as \<Longrightarrow> map_option p_next (segments h1 b) = map_option p_next (segments h b)"
    and "\<And>b. b \<in> set as \<Longrightarrow> has_text h b \<Longrightarrow> has_text h1 b"
  shows "chain_ok h1 first cur as"
proof -
  from assms(1) have c: "is_chain (segments h) first as"
    and l: "list_all (\<lambda>a. a < brk h \<and> has_text h a) as"
    by (auto simp: chain_ok_def)
  have c1: "is_chain (segments h1) first as"
    by (rule is_chain_cong[OF c]) (rule assms(3))
  have l1: "list_all (\<lambda>a. a < brk h1 \<and> has_text h1 a) as"
    using l assms(2) assms(4) by (auto simp: list_all_iff)
  from assms(1) c1 l1 show ?thesis by (simp add: chain_ok_def)
qed

lemma heap_ok_cong:
  assumes "heap_ok h stack" and "False \<notin> set (allocs h1)"
    and "\<And>p. styles h p \<noteq> None \<Longrightarrow> styles h1 p \<noteq> None"
  shows "heap_ok h1 stack"
  using assms by (auto simp: heap_ok_def list_all_iff)

lemma chain_ok_cur:
  assumes "chain_ok h first cur as"
  shows "\<exists>sg t. cur = Some (last as) \<and> segments h (last as) = Some sg \<and> psz_text sg = Some t \<and> p_next sg = None"
proof -
  from assms have ne: "as \<noteq> []" and cur: "cur = Some (last as)"
    and c: "is_chain (segments h) first as"
    and l: "list_all (\<lambda>a. a < brk h \<and> has_text h a) as"
    by (auto simp: chain_ok_def)
  from is_chain_last_next[OF c ne] obtain sg where sg: "segments h (last as) = Some sg" "p_next sg = None" by auto
  from l ne have "has_text h (last as)" by (auto simp: list_all_iff)
  with sg obtain t where "psz_text sg = Some t" by (auto simp: has_text_def)
  with sg cur show ?thesis by auto
qed

lemma AppendCharacter_inv:
  assumes "heap_ok h stack" and "chain_ok h first cur as"
  shows "\<exists>h1. AppendCharacter h cur c = Inr (True, h1) \<and> heap_ok h1 stack \<and> chain_ok h1 first cur as"
proof -
  from chain_ok_cur[OF assms(2)] obtain sg t where cur: "cur = Some (last as)"
    and sg: "segments h (last as) = Some sg" and t: "psz_text sg = Some t" by auto
  from assms(1) have nf: "False \<notin> set (allocs h)" by (simp add: heap_ok_def)
  define h1 where "h1 = h\<lparr>allocs := tl (allocs h),
      segments := (segments h)(last as \<mapsto> sg\<lparr>psz_text := Some (c_str t @ [c])\<rparr>)\<rparr>"
  have r: "AppendCharacter h cur c = Inr (True, h1)"
    by (simp add: AppendCharacter_def cur sg t alloc_ok[OF nf] h1_def)
  have hk: "heap_ok h1 stack"
    by (rule heap_ok_cong[OF assms(1)]) (simp_all add: h1_def set_tl_subset[OF nf])
  have ck: "chain_ok h1 first cur as"
    by (rule chain_ok_cong[OF assms(2)]) (auto simp: h1_def sg has_text_def)
  from r hk ck show ?thesis by blast
qed

lemma update_style_inv:
  assumes "heap_ok h stack" and "chain_ok h first cur as" and "styled h cur"
  shows "\<exists>h1. update_style h cur f = Inr h1 \<and> heap_ok h1 stack \<and> chain_ok h1 first cur as \<and> styled h1 cur"
proof -
  from assms(3) obtain n sg p s where cur: "cur = Some n" and sg: "segments h n = Some sg"
    and p: "style sg = Some p" and s: "styles h p = Some s"
    by (auto simp: styled_def split: option.splits)
  define h1 where "h1 = h\<lparr>styles := (styles h)(p \<mapsto> f s)\<rparr>"
  have r: "update_style h cur f = Inr h1"
    by (simp add: update_style_def cur sg p s h1_def)
  have hk: "heap_ok h1 stack"
    by (rule heap_ok_cong[OF assms(1)]) (use assms(1) in \<open>auto simp: h1_def heap_ok_def\<close>)
  have ck: "chain_ok h1 first cur as"
    by (rule chain_ok_cong[OF assms(2)]) (auto simp: h1_def has_text_def)
  have sk: "styled h1 cur" by (simp add: styled_def cur h1_def sg p)
  from r hk ck sk show ?thesis by blast
qed

lemma NewTextSegmentPushStyle_inv:
  assumes "heap_ok h stack" and "chain_ok h first cur as"
  shows "\<exists>n p h1. NewTextSegmentPushStyle E h cur stack = Inr (Some n, p # stack, h1) \<and>
           heap_ok h1 (p # stack) \<and> chain_ok h1 first (Some n) (as @ [n]) \<and> styled h1 (Some n)"
proof -
  from chain_ok_cur[OF assms(2)] obtain sg t where cur: "cur = Some (last as)"
    and sg: "segments h (last as) = Some sg" and t: "psz_text sg = Some t" by auto
  from assms(1) have nf: "False \<notin> set (allocs h)"
    and st: "list_all (\<lambda>p. styles h p \<noteq> None) stack" by (simp_all add: heap_ok_def)
  from assms(2) have ne: "as \<noteq> []" and d: "distinct as" and c: "is_chain (segments h) first as"
    and l: "list_all (\<lambda>a. a < brk h \<and> has_text h a) as" and f: "first = Some (hd as)"
    by (auto simp: chain_ok_def)
  define n where "n = brk h"
  from l have fresh: "n \<notin> set as" by (auto simp: list_all_iff n_def)
  from ne fresh have nl: "last as \<noteq> n" by (metis last_in_set)
  define new where "new = \<lparr>psz_text = Some [], style = None, p_next = None\<rparr>"
  define ha where "ha = h\<lparr>allocs := tl (allocs h), segments := (segments h)(n \<mapsto> new), brk := Suc n\<rparr>"
  have nfa: "False \<notin> set (allocs ha)" by (simp add: ha_def set_tl_subset[OF nf])
  have tsn: "text_segment_New h None = (Some n, ha)"
    by (simp add: text_segment_New_def alloc_ok[OF nf] ha_def n_def new_def)
  define s0 where "s0 = (case stack of [] \<Rightarrow> default_style E | p_top # _ \<Rightarrow> the (styles h p_top))"
  define hb where "hb = ha\<lparr>allocs := tl (allocs ha), styles := (styles ha)(Suc n \<mapsto> s0), brk := Suc (Suc n)\<rparr>"
  have nfb: "False \<notin> set (allocs hb)" by (simp add: hb_def set_tl_subset[OF nfa])
  have dup: "(case stack of [] \<Rightarrow> Inr (text_style_New E ha) | p_top # _ \<Rightarrow> text_style_Duplicate ha p_top)
      = Inr (Some (Suc n), hb)"
  proof (cases stack)
    case Nil
    then show ?thesis
      by (simp add: text_style_New_def alloc_ok[OF nfa] hb_def s0_def) (simp add: ha_def)
  next
    case (Cons p_top rest)
    with st obtain s where s: "styles h p_top = Some s" by auto
    then have "styles ha p_top = Some s" by (simp add: ha_def)
    with Cons s show ?thesis
      by (simp add: text_style_Duplicate_def alloc_ok[OF nfa] hb_def s0_def) (simp add: ha_def)
  qed
  define hc where "hc = hb\<lparr>allocs := tl (allocs hb)\<rparr>"
  have nfc: "False \<notin> set (allocs hc)" by (simp add: hc_def set_tl_subset[OF nfb])
  have dps: "DuplicateAndPushStyle E ha stack = Inr (Some (Suc n), Suc n # stack, hc)"
    by (simp add: DuplicateAndPushStyle_def dup alloc_ok[OF nfb] hc_def)
  define h1 where "h1 = hc\<lparr>segments := (segments h)(n \<mapsto> new\<lparr>style := Some (Suc n)\<rparr>,
       last as \<mapsto> sg\<lparr>p_next := Some n\<rparr>)\<rparr>"
  have segc: "segments hc = (segments h)(n \<mapsto> new)" by (simp add: hc_def hb_def ha_def)
  have lk: "link_segment hc cur n (Some (Suc n)) = Inr h1"
    using nl by (simp add: link_segment_def segc cur sg h1_def Let_def)
  have r: "NewTextSegmentPushStyle E h cur stack = Inr (Some n, Suc n # stack, h1)"
    by (simp add: NewTextSegmentPushStyle_def tsn dps lk)
  have sty1: "styles h1 = (styles h)(Suc n \<mapsto> s0)" by (simp add: h1_def hc_def hb_def ha_def)
  have brk1: "brk h1 = Suc (Suc n)" by (simp add: h1_def hc_def hb_def ha_def)
  have seg1: "segments h1 = (segments h)(n \<mapsto> new\<lparr>style := Some (Suc n)\<rparr>, last as \<mapsto> sg\<lparr>p_next := Some n\<rparr>)"
    by (simp add: h1_def)
  have al1: "allocs h1 = allocs hc" by (simp add: h1_def)
  have hk: "heap_ok h1 (Suc n # stack)"
    using st nfc by (auto simp: heap_ok_def sty1 al1 list_all_iff)
  have ch: "is_chain (segments h1) first (as @ [n])"
  proof (rule is_chain_snoc[OF c ne d fresh _ _ sg])
    show "segments h1 n = Some (new\<lparr>style := Some (Suc n)\<rparr>)" using nl by (simp add: seg1)
    show "p_next (new\<lparr>style := Some (Suc n)\<rparr>) = None" by (simp add: new_def)
    show "segments h1 (last as) = Some (sg\<lparr>p_next := Some n\<rparr>)" by (simp add: seg1)
    show "map_option p_next (segments h1 b) = map_option p_next (segments h b)"
      if "b \<in> set as" "b \<noteq> last as" for b
      using that fresh by (auto simp: seg1)
  qed
  have la: "list_all (\<lambda>a. a < brk h1 \<and> has_text h1 a) (as @ [n])"
    using l nl sg t by (auto simp: list_all_iff brk1 n_def has_text_def seg1 new_def split: option.splits)
  have ck: "chain_ok h1 first (Some n) (as @ [n])"
    using ne f d fresh ch la by (simp add: chain_ok_def)
  have sk: "styled h1 (Some n)"
    using nl by (simp add: styled_def seg1 sty1)
  from r hk ck sk show ?thesis by blast
qed

lemma push_flag_inv:
  assumes "parser_inv as st"
  shows "\<exists>st1 n. push_flag E st flag k = Inr st1 \<and> parser_inv (as @ [n]) st1 \<and>
           p_first_segment st1 = p_first_segment st \<and>
           psz_subtitle st1 = drop k (psz_subtitle st)"
proof -
  from assms have hk: "heap_ok (mem st) (p_stack st)"
    and ck: "chain_ok (mem st) (p_first_segment st) (p_segment st) as" by (auto simp: parser_inv_def)
  from NewTextSegmentPushStyle_inv[OF hk ck, of E] obtain n p h1 where
    r: "NewTextSegmentPushStyle E (mem st) (p_segment st) (p_stack st) = Inr (Some n, p # p_stack st, h1)"
    and hk1: "heap_ok h1 (p # p_stack st)"
    and ck1: "chain_ok h1 (p_first_segment st) (Some n) (as @ [n])"
    and sk1: "styled h1 (Some n)" by blast
  from update_style_inv[OF hk1 ck1 sk1, of "\<lambda>s. s\<lparr>i_style_flags := i_style_flags s OR flag\<rparr>"]
  obtain h2 where u: "update_style h1 (Some n) (\<lambda>s. s\<lparr>i_style_flags := i_style_flags s OR flag\<rparr>) = Inr h2"
    and hk2: "heap_ok h2 (p # p_stack st)"
    and ck2: "chain_ok h2 (p_first_segment st) (Some n) (as @ [n])" by blast
  have "push_flag E st flag k = Inr (st\<lparr>mem := h2, p_segment := Some n, p_stack := p # p_stack st,
      psz_subtitle := drop k (psz_subtitle st)\<rparr>)"
    using r u by (simp add: push_flag_def)
  moreover have "parser_inv (as @ [n]) (st\<lparr>mem := h2, p_segment := Some n, p_stack := p # p_stack st,
      psz_subtitle := drop k (psz_subtitle st)\<rparr>)"
    using hk2 ck2 by (simp add: parser_inv_def)
  ultimately show ?thesis by force
qed

lemma ConsumeAttribute_heap:
  assumes "ConsumeAttribute h s = (h1, r)"
  shows "segments h1 = segments h \<and> styles h1 = styles h \<and> brk h1 = brk h \<and>
         (False \<notin> set (allocs h) \<longrightarrow> False \<notin> set (allocs h1))"
proof -
  have a: "segments (snd (alloc g)) = segments g \<and> styles (snd (alloc g)) = styles g \<and>
           brk (snd (alloc g)) = brk g \<and> (False \<notin> set (allocs g) \<longrightarrow> False \<notin> set (allocs (snd (alloc g))))" for g
    by (cases "allocs g") (auto simp: alloc_def)
  have "h1 = h \<or> h1 = snd (alloc h) \<or> h1 = snd (alloc (snd (alloc h)))"
    using assms unfolding ConsumeAttribute_def Let_def
    by (auto split: if_splits prod.splits bool.splits)
  then show ?thesis using a[of h] a[of "snd (alloc h)"] by auto
qed

lemma apply_attribute_inv:
  assumes "heap_ok h stack" and "chain_ok h first cur as" and "styled h cur"
  shows "\<exists>h1. apply_attribute h cur name val = Inr h1 \<and> heap_ok h1 stack \<and>
           chain_ok h1 first cur as \<and> styled h1 cur"
  unfolding apply_attribute_def
  using update_style_inv[OF assms] assms by auto

lemma font_attributes_inv:
  "heap_ok h stack \<Longrightarrow> chain_ok h first cur as \<Longrightarrow> styled h cur \<Longrightarrow>
   \<exists>h1 s1. font_attributes h cur s = Inr (h1, s1) \<and> heap_ok h1 stack \<and>
           chain_ok h1 first cur as \<and> styled h1 cur"
proof (induction h cur s rule: font_attributes.induct)
  case (1 h cur s)
  obtain ha r where ca: "ConsumeAttribute h s = (ha, r)" by (cases "ConsumeAttribute h s") auto
  from ConsumeAttribute_heap[OF ca] "1.prems"(1) have same: "segments ha = segments h" "styles ha = styles h" "brk ha = brk h"
    and nf: "False \<notin> set (allocs ha)" by (auto simp: heap_ok_def)
  have hka: "heap_ok ha stack" by (rule heap_ok_cong[OF "1.prems"(1) nf]) (simp add: same)
  have cka: "chain_ok ha first cur as"
    by (rule chain_ok_cong[OF "1.prems"(2)]) (auto simp: same has_text_def)
  have ska: "styled ha cur" using "1.prems"(3) by (auto simp: styled_def same split: option.splits)
  show ?case
  proof (cases r)
    case None
    with ca hka cka ska show ?thesis by (simp add: font_attributes.simps[of h cur s])
  next
    case (Some t)
    obtain name val s1 where t: "t = (name, val, s1)" by (cases t) auto
    from ca Some t have ca': "ConsumeAttribute h s = (ha, Some (name, val, s1))" by simp
    from apply_attribute_inv[OF hka cka ska, of name val] obtain hb where
      aa: "apply_attribute ha cur name val = Inr hb" and hkb: "heap_ok hb stack"
      and ckb: "chain_ok hb first cur as" and skb: "styled hb cur" by blast
    from "1.IH"[OF ca'[symmetric] refl refl refl aa hkb ckb skb]
    show ?thesis by (simp add: font_attributes.simps[of h cur s] ca' aa)
  qed
qed

lemma font_tag_inv:
  assumes "parser_inv as st"
  shows "\<exists>st1 n. font_tag E st = Inr st1 \<and> parser_inv (as @ [n]) st1 \<and>
           p_first_segment st1 = p_first_segment st"
proof -
  from assms have hk: "heap_ok (mem st) (p_stack st)"
    and ck: "chain_ok (mem st) (p_first_segment st) (p_segment st) as" by (auto simp: parser_inv_def)
  from NewTextSegmentPushStyle_inv[OF hk ck, of E] obtain n p h1 where
    r: "NewTextSegmentPushStyle E (mem st) (p_segment st) (p_stack st) = Inr (Some n, p # p_stack st, h1)"
    and hk1: "heap_ok h1 (p # p_stack st)"
    and ck1: "chain_ok h1 (p_first_segment st) (Some n) (as @ [n])"
    and sk1: "styled h1 (Some n)" by blast
  from font_attributes_inv[OF hk1 ck1 sk1, of "drop 6 (psz_subtitle st)"] obtain h2 s1 where
    fa: "font_attributes h1 (Some n) (drop 6 (psz_subtitle st)) = Inr (h2, s1)"
    and hk2: "heap_ok h2 (p # p_stack st)"
    and ck2: "chain_ok h2 (p_first_segment st) (Some n) (as @ [n])" by blast
  have "font_tag E st = Inr (st\<lparr>mem := h2, p_segment := Some n, p_stack := p # p_stack st,
      psz_subtitle := dropWhile (\<lambda>c. c \<noteq> CHR ''>'') s1\<rparr>)"
    using r fa by (simp add: font_tag_def)
  moreover have "parser_inv (as @ [n]) (st\<lparr>mem := h2, p_segment := Some n, p_stack := p # p_stack st,
      psz_subtitle := dropWhile (\<lambda>c. c \<noteq> CHR ''>'') s1\<rparr>)"
    using hk2 ck2 by (simp add: parser_inv_def)
  ultimately show ?thesis by force
qed

lemma closing_name_differs:
  "strncasecmp (CHR ''<'' # xs) ''b'' (Suc k) \<noteq> 0"
  "strncasecmp (CHR ''<'' # xs) ''i'' (Suc k) \<noteq> 0"
  "strncasecmp (CHR ''<'' # xs) ''u'' (Suc k) \<noteq> 0"
  "strncasecmp (CHR ''<'' # xs) ''s'' (Suc k) \<noteq> 0"
  "strncasecmp (CHR ''<'' # xs) ''font'' (Suc k) \<noteq> 0"
  by (simp_all add: tolower_def)

lemma closing_tag_literal:
  assumes "psz_subtitle st = CHR ''<'' # xs"
  shows "closing_tag E st = append_unchecked st (CHR ''<'') xs"
  by (simp add: closing_tag_def assms tolower_def)

lemma append_or_fail_inv:
  assumes "parser_inv as st"
  shows "\<exists>st1. append_or_fail st c k = Inr (Continue st1) \<and> parser_inv as st1 \<and>
           p_first_segment st1 = p_first_segment st"
proof -
  from assms have hk: "heap_ok (mem st) (p_stack st)"
    and ck: "chain_ok (mem st) (p_first_segment st) (p_segment st) as" by (auto simp: parser_inv_def)
  from AppendCharacter_inv[OF hk ck, of c] show ?thesis
    by (auto simp: append_or_fail_def parser_inv_def)
qed

lemma append_unchecked_inv:
  assumes "parser_inv as st"
  shows "\<exists>st1. append_unchecked st c p = Inr (Continue st1) \<and> parser_inv as st1 \<and>
           p_first_segment st1 = p_first_segment st"
proof -
  from assms have hk: "heap_ok (mem st) (p_stack st)"
    and ck: "chain_ok (mem st) (p_first_segment st) (p_segment st) as" by (auto simp: parser_inv_def)
  from AppendCharacter_inv[OF hk ck, of c] show ?thesis
    by (auto simp: append_unchecked_def parser_inv_def)
qed

lemma parser_inv_oob: "parser_inv as (st\<lparr>oob := b\<rparr>) = parser_inv as st"
  by (simp add: parser_inv_def)

lemma after_brace_inv:
  assumes "parser_inv as st" and "CHR ''}'' \<in> set (psz_subtitle st)"
  shows "\<exists>st1. after_brace st = Inr st1 \<and> parser_inv as st1 \<and> p_first_segment st1 = p_first_segment st"
  using assms by (simp add: after_brace_def strchr_def parser_inv_def)

lemma ssa_block_inv:
  assumes "parser_inv as st" and "CHR ''}'' \<in> set (psz_subtitle st)"
  shows "\<exists>st1. ssa_block E st = Inr st1 \<and> parser_inv as st1 \<and> p_first_segment st1 = p_first_segment st"
proof -
  have "parser_inv as (st\<lparr>b_has_align := b, pi_align := v\<rparr>)" for b v using assms(1) by (simp add: parser_inv_def)
  with assms show ?thesis
    using after_brace_inv[of as "st\<lparr>b_has_align := True, pi_align := v\<rparr>" for v] after_brace_inv[of as st]
    by (auto simp: ssa_block_def Let_def)
qed

lemma y_flag_inv:
  assumes "parser_inv as st"
  shows "\<exists>st1 as1. y_flag E st c flag = Inr st1 \<and> parser_inv as1 st1 \<and>
           p_first_segment st1 = p_first_segment st \<and>
           (psz_subtitle st1 = psz_subtitle st \<or> psz_subtitle st1 = drop 1 (psz_subtitle st))"
  using push_flag_inv[OF assms, of E flag 1] assms by (auto simp: y_flag_def)

lemma y_block_inv:
  assumes "parser_inv as st" and s: "psz_subtitle st = c0 # c1 # c2 # rest"
    and nb: "c0 \<noteq> CHR ''}''" "c1 \<noteq> CHR ''}''" "c2 \<noteq> CHR ''}''" and br: "CHR ''}'' \<in> set rest"
  shows "\<exists>st1 as1. y_block E st = Inr st1 \<and> parser_inv as1 st1 \<and> p_first_segment st1 = p_first_segment st"
proof -
  from y_flag_inv[OF assms(1), of E "CHR ''i''" "STYLE_ITALIC E"] obtain st1 as1 where
    1: "y_flag E st (CHR ''i'') (STYLE_ITALIC E) = Inr st1" "parser_inv as1 st1"
       "p_first_segment st1 = p_first_segment st"
       "psz_subtitle st1 = psz_subtitle st \<or> psz_subtitle st1 = drop 1 (psz_subtitle st)" by blast
  from y_flag_inv[OF 1(2), of E "CHR ''b''" "STYLE_BOLD E"] obtain st2 as2 where
    2: "y_flag E st1 (CHR ''b'') (STYLE_BOLD E) = Inr st2" "parser_inv as2 st2"
       "p_first_segment st2 = p_first_segment st1"
       "psz_subtitle st2 = psz_subtitle st1 \<or> psz_subtitle st2 = drop 1 (psz_subtitle st1)" by blast
  from y_flag_inv[OF 2(2), of E "CHR ''u''" "STYLE_UNDERLINE E"] obtain st3 as3 where
    3: "y_flag E st2 (CHR ''u'') (STYLE_UNDERLINE E) = Inr st3" "parser_inv as3 st3"
       "p_first_segment st3 = p_first_segment st2"
       "psz_subtitle st3 = psz_subtitle st2 \<or> psz_subtitle st3 = drop 1 (psz_subtitle st2)" by blast
  from 1(4) 2(4) 3(4) s br have "CHR ''}'' \<in> set (psz_subtitle st3)" by auto
  from after_brace_inv[OF 3(2) this] obtain st4 where
    4: "after_brace st3 = Inr st4" "parser_inv as3 st4" "p_first_segment st4 = p_first_segment st3" by blast
  show ?thesis using 1 2 3 4 by (auto simp: y_block_def)
qed

lemma tag_inv:
  assumes "parser_inv as st" and s: "psz_subtitle st = CHR ''<'' # xs"
  shows "\<exists>st1 as1. tag E st = Inr (Continue st1) \<and> parser_inv as1 st1 \<and>
           p_first_segment st1 = p_first_segment st"
proof -
  note pf = push_flag_inv[OF assms(1), of E _ 3]
  have push: "\<exists>st1 as1. map_sum id Continue (push_flag E st flag 3) = Inr (Continue st1) \<and> parser_inv as1 st1 \<and>
           p_first_segment st1 = p_first_segment st" for flag
    using pf[of flag] by force
  have font: "\<exists>st1 as1. map_sum id Continue (font_tag E st) = Inr (Continue st1) \<and> parser_inv as1 st1 \<and>
           p_first_segment st1 = p_first_segment st"
    using font_tag_inv[OF assms(1), of E] by force
  have app: "\<exists>st1 as1. append_unchecked st c p = Inr (Continue st1) \<and> parser_inv as1 st1 \<and>
           p_first_segment st1 = p_first_segment st" for c p
    using append_unchecked_inv[OF assms(1), of c p] by blast
  have br: "\<exists>st1 as1. append_or_fail st c k = Inr (Continue st1) \<and> parser_inv as1 st1 \<and>
           p_first_segment st1 = p_first_segment st" for c k
    using append_or_fail_inv[OF assms(1), of c k] by blast
  show ?thesis
    unfolding tag_def Let_def closing_tag_literal[OF s]
    using push font app br by (simp del: strncasecmp.simps strncmp.simps)
qed

lemma body_inv:
  assumes "parser_inv as st" and ne: "psz_subtitle st \<noteq> []"
  shows "\<exists>st1 as1. body E st = Inr (Continue st1) \<and> parser_inv as1 st1 \<and>
           p_first_segment st1 = p_first_segment st"
proof -
  define s where "s = psz_subtitle st"
  have app: "\<exists>st1 as1. append_unchecked st c p = Inr (Continue st1) \<and> parser_inv as1 st1 \<and>
           p_first_segment st1 = p_first_segment st" for c p
    using append_unchecked_inv[OF assms(1), of c p] by blast
  have app': "\<exists>st1 as1. append_unchecked (st\<lparr>oob := b\<rparr>) c p = Inr (Continue st1) \<and> parser_inv as1 st1 \<and>
           p_first_segment st1 = p_first_segment st" for c p b
    using append_unchecked_inv[of as "st\<lparr>oob := b\<rparr>" c p] assms(1) by (auto simp: parser_inv_oob)
  have nl: "\<exists>st1 as1. append_or_fail st c k = Inr (Continue st1) \<and> parser_inv as1 st1 \<and>
           p_first_segment st1 = p_first_segment st" for c k
    using append_or_fail_inv[OF assms(1), of c k] by blast
  have tg: "at s 0 = CHR ''<'' \<Longrightarrow> \<exists>st1 as1. tag E st = Inr (Continue st1) \<and> parser_inv as1 st1 \<and>
           p_first_segment st1 = p_first_segment st"
  proof -
    assume "at s 0 = CHR ''<''"
    then obtain xs where "psz_subtitle st = CHR ''<'' # xs"
      by (cases s) (auto simp: at_def s_def)
    from tag_inv[OF assms(1) this] show ?thesis .
  qed
  have ssa: "strchr s (CHR ''}'') \<noteq> None \<Longrightarrow>
       \<exists>st1 as1. map_sum id Continue (ssa_block E st) = Inr (Continue st1) \<and> parser_inv as1 st1 \<and>
           p_first_segment st1 = p_first_segment st"
    using ssa_block_inv[OF assms(1), of E] by (force simp: strchr_def s_def split: if_splits)
  have gen: "strchr s (CHR ''}'') \<noteq> None \<Longrightarrow>
       \<exists>st1 as1. map_sum id Continue (after_brace (st\<lparr>oob := b\<rparr>)) = Inr (Continue st1) \<and> parser_inv as1 st1 \<and>
           p_first_segment st1 = p_first_segment st" for b
    using after_brace_inv[of as "st\<lparr>oob := b\<rparr>"] assms(1)
    by (force simp: strchr_def s_def parser_inv_oob split: if_splits)
  have yb: "at s 0 = CHR ''{'' \<Longrightarrow> at s 1 = CHR ''Y'' \<or> at s 1 = CHR ''y'' \<Longrightarrow> at s 2 = CHR '':'' \<Longrightarrow>
       strchr s (CHR ''}'') \<noteq> None \<Longrightarrow>
       \<exists>st1 as1. map_sum id Continue (y_block E st) = Inr (Continue st1) \<and> parser_inv as1 st1 \<and>
           p_first_segment st1 = p_first_segment st"
  proof -
    assume a: "at s 0 = CHR ''{''" "at s 1 = CHR ''Y'' \<or> at s 1 = CHR ''y''" "at s 2 = CHR '':''"
      "strchr s (CHR ''}'') \<noteq> None"
    from a(3) have "2 < length s" by (auto simp: at_def split: if_splits)
    then obtain c0 c1 c2 rest where s3: "s = c0 # c1 # c2 # rest"
      by (cases s; cases "tl s"; cases "tl (tl s)") auto
    from a s3 have c: "c0 \<noteq> CHR ''}''" "c1 \<noteq> CHR ''}''" "c2 \<noteq> CHR ''}''" and r: "CHR ''}'' \<in> set rest"
      by (auto simp: at_def strchr_def split: if_splits)
    from y_block_inv[OF assms(1) s3[unfolded s_def] c r, of E] show ?thesis by force
  qed
  show ?thesis
    unfolding body_def Let_def s_def[symmetric]
    using app app' nl tg ssa gen yb by simp
qed

lemma loop_inv:
  "parser_inv as st \<Longrightarrow>
   \<exists>st1 as1. ParseSubtitles_loop E st = Inr (Continue st1) \<and> parser_inv as1 st1 \<and>
           p_first_segment st1 = p_first_segment st"
proof (induction E st arbitrary: as rule: ParseSubtitles_loop.induct)
  case (1 E st)
  show ?case
  proof (cases "psz_subtitle st = []")
    case True
    with "1.prems" show ?thesis by (auto simp: ParseSubtitles_loop.simps[of E st])
  next
    case False
    from body_inv[OF "1.prems" False, of E] obtain st1 as1 where
      b: "body E st = Inr (Continue st1)" and i: "parser_inv as1 st1"
      and f: "p_first_segment st1 = p_first_segment st" by blast
    from "1.IH"[OF False b refl i] f b False show ?thesis
      by (auto simp: ParseSubtitles_loop.simps[of E st])
  qed
qed

lemma initial_inv:
  assumes "False \<notin> set al"
  shows "parser_inv [0] (initial_state al align psz) \<and> p_first_segment (initial_state al align psz) = Some 0 \<and>
         map_option psz_text (segments (mem (initial_state al align psz)) 0) = Some (Some [])"
  using assms
  by (simp add: initial_state_def text_segment_New_def alloc_ok parser_inv_def heap_ok_def chain_ok_def
      has_text_def set_tl_subset c_str_def)

text \<open>\<open>chain_view\<close> shows the whole of a chain that is not longer than its bound, as are
  the chains of the invariant.\<close>

lemma chain_view_length:
  "is_chain (segments h) p as \<Longrightarrow> length as \<le> n \<Longrightarrow> length (chain_view n h p) = length as"
proof (induction n arbitrary: p as)
  case 0 then show ?case by simp
next
  case (Suc n)
  show ?case
  proof (cases as)
    case Nil
    with Suc.prems show ?thesis by simp
  next
    case (Cons a rest)
    with Suc.prems obtain sg where p: "p = Some a" and sg: "segments h a = Some sg"
      and r: "is_chain (segments h) (p_next sg) rest"
      by (auto split: option.splits)
    from Suc.IH[OF r] Suc.prems(2) Cons have "length (chain_view n h (p_next sg)) = length rest" by simp
    with p sg Cons show ?thesis by simp
  qed
qed

lemma chain_ok_bound:
  assumes "chain_ok h first cur as"
  shows "length as \<le> brk h"
proof -
  from assms have d: "distinct as" and l: "list_all (\<lambda>a. a < brk h \<and> has_text h a) as"
    by (auto simp: chain_ok_def)
  from l have "set as \<subseteq> {..<brk h}" by (auto simp: list_all_iff)
  then have "card (set as) \<le> card {..<brk h}" by (intro card_mono) auto
  with d show ?thesis by (simp add: distinct_card)
qed

lemma ParseSubtitles_succeeds:
  assumes "False \<notin> set al"
  shows "\<exists>st as. ParseSubtitles E al align psz = Inr (Some 0, st) \<and> parser_inv as st \<and>
           p_first_segment st = Some 0"
proof -
  from initial_inv[OF assms, of align psz] have i: "parser_inv [0] (initial_state al align psz)"
    and f: "p_first_segment (initial_state al align psz) = Some 0"
    by auto
  from loop_inv[OF i, of E] obtain st as where
    l: "ParseSubtitles_loop E (initial_state al align psz) = Inr (Continue st)"
    and i1: "parser_inv as st" and f1: "p_first_segment st = Some 0" using f by auto
  have "ParseSubtitles E al align psz = Inr (Some 0, st)"
    by (simp add: ParseSubtitles_def l f1)
  with i1 f1 show ?thesis by blast
qed

text \<open>
  C7. When no allocation fails, \<^verbatim>\<open>ParseSubtitles\<close> returns, for every input and the
  empty one too, and whatever byte lies after the terminator, a pointer \<open>a\<close> that is not
  \<^verbatim>\<open>NULL\<close>. It is the first segment, which the state before the loop holds with the
  empty text. In the memory after the call the \<^verbatim>\<open>p_next\<close> links from \<open>a\<close> visit a
  list \<open>as\<close> of at least one segment, without repetition, and reach \<^verbatim>\<open>NULL\<close>; every
  segment of the list has a text.
\<close>

theorem ParseSubtitles_returns_chain:
  assumes "False \<notin> set al"
  shows "\<exists>a st as. ParseSubtitles E al align psz = Inr (Some a, st) \<and>
           p_first_segment (initial_state al align psz) = Some a \<and>
           map_option psz_text (segments (mem (initial_state al align psz)) a) = Some (Some []) \<and>
           as \<noteq> [] \<and> distinct as \<and> is_chain (segments (mem st)) (Some a) as \<and>
           list_all (has_text (mem st)) as"
proof -
  from initial_inv[OF assms, of align psz]
  have f: "p_first_segment (initial_state al align psz) = Some 0"
    and t: "map_option psz_text (segments (mem (initial_state al align psz)) 0) = Some (Some [])"
    by auto
  from ParseSubtitles_succeeds[OF assms, of E align psz] obtain st as where
    r: "ParseSubtitles E al align psz = Inr (Some 0, st)"
    and i1: "parser_inv as st" and f1: "p_first_segment st = Some 0" by blast
  from i1 f1 have "as \<noteq> []" "distinct as" "is_chain (segments (mem st)) (Some 0) as"
    "list_all (has_text (mem st)) as"
    by (auto simp: parser_inv_def chain_ok_def list_all_iff)
  with r f t show ?thesis by blast
qed

theorem ParseSubtitles_returns_chain_witness:
  "False \<notin> set [True, True, True, True] \<and>
   (\<exists>a st as. ParseSubtitles example_env [True, True, True, True] 8 ''<b>x'' = Inr (Some a, st) \<and>
      p_first_segment (initial_state [True, True, True, True] 8 ''<b>x'') = Some a \<and>
      map_option psz_text (segments (mem (initial_state [True, True, True, True] 8 ''<b>x'')) a)
        = Some (Some []) \<and>
      as \<noteq> [] \<and> distinct as \<and> is_chain (segments (mem st)) (Some a) as \<and>
      list_all (has_text (mem st)) as)"
proof -
  have h: "False \<notin> set [True, True, True, True]" by simp
  from h ParseSubtitles_returns_chain[OF h, of example_env 8 "''<b>x''"] show ?thesis
    by (rule conjI)
qed

subsection \<open>The alignment\<close>












lemma strncmp_literal:
  "NUL \<notin> set lit \<Longrightarrow> strncmp s lit (length lit) = 0 \<longleftrightarrow> take (length lit) s = lit"
proof (induction lit arbitrary: s)
  case Nil then show ?case by simp
next
  case (Cons y ys)
  show ?case
  proof (cases s)
    case Nil
    with Cons.prems show ?thesis by (auto simp: of_char_eq_iff[where ?'a = nat, of y NUL, simplified])
  next
    case (Cons x xs)
    with Cons.IH[of xs] Cons.prems show ?thesis by auto
  qed
qed
























subsection \<open>Unknown tags are literal text\<close>

lemma alloc_segments: "segments (snd (alloc h)) = segments h"
  by (cases "allocs h") (auto simp: alloc_def)

lemma AppendCharacter_success:
  assumes "segments h a = Some sg" and "psz_text sg = Some t" and "NUL \<notin> set t" and "fst (alloc h)"
  shows "AppendCharacter h (Some a) c =
           Inr (True, (snd (alloc h))\<lparr>segments := (segments h)(a \<mapsto> sg\<lparr>psz_text := Some (t @ [c])\<rparr>)\<rparr>)"
  using assms alloc_segments[of h]
  by (cases "alloc h") (auto simp: AppendCharacter_def c_str_id)

text \<open>
  C8. In a state whose active segment exists with a text \<open>t\<close>, and when the allocation
  of \<^verbatim>\<open>AppendCharacter\<close> succeeds: a turn of the loop on a \<^verbatim>\<open><\<close> that starts no
  recognized construct appends exactly the character \<^verbatim>\<open><\<close> to the active segment and
  moves the cursor by one character, and changes nothing else; a turn on a character
  that starts no markup appends that character and moves the cursor by one. The input
  \<^verbatim>\<open><marquee>x</marquee>\<close> gives one segment whose text is the input itself.
\<close>

theorem unknown_open_tag_literal:
  assumes "p_segment st = Some a" and "segments (mem st) a = Some sg" and "psz_text sg = Some t"
    and "NUL \<notin> set t" and "fst (alloc (mem st))"
  shows "(unknown_open_tag (psz_subtitle st) \<longrightarrow>
            body E st = Inr (Continue (appended st a sg (t @ ''<'')))) \<and>
         (ordinary_character (psz_subtitle st) \<longrightarrow>
            body E st = Inr (Continue (appended st a sg (t @ [hd (psz_subtitle st)])))) \<and>
         parsed_segments (ParseSubtitles E [] align ''<marquee>x</marquee>'') =
            Inr (Some [(Some ''<marquee>x</marquee>'', None)])"
proof (intro conjI impI)
  note ac = AppendCharacter_success[OF assms(2-5)]
  show "body E st = Inr (Continue (appended st a sg (t @ ''<'')))"
    if "unknown_open_tag (psz_subtitle st)"
  proof -
    from that obtain xs where s: "psz_subtitle st = CHR ''<'' # xs"
      by (cases "psz_subtitle st") (auto simp: unknown_open_tag_def at_def)
    from that show ?thesis
      unfolding body_def tag_def Let_def unknown_open_tag_def
      by (simp add: append_unchecked_def assms(1) ac appended_def s del: strncasecmp.simps strncmp.simps)
  qed
  show "body E st = Inr (Continue (appended st a sg (t @ [hd (psz_subtitle st)])))"
    if "ordinary_character (psz_subtitle st)"
  proof -
    from that obtain x xs where s: "psz_subtitle st = x # xs"
      by (cases "psz_subtitle st") (auto simp: ordinary_character_def)
    from that show ?thesis
      unfolding body_def Let_def ordinary_character_def
      by (simp add: append_unchecked_def assms(1) ac appended_def s at_def)
  qed
  show "parsed_segments (ParseSubtitles E [] align ''<marquee>x</marquee>'') =
            Inr (Some [(Some ''<marquee>x</marquee>'', None)])"
    by code_simp
qed

theorem unknown_open_tag_literal_witness:
  "unknown_open_tag ''<marquee>'' \<and> ordinary_character ''marquee>'' \<and>
   map_sum id (\<lambda>fl. (psz_subtitle (flow_state fl), chain_view 1 (mem (flow_state fl)) (Some 0)))
     (body example_env (initial_state [] 8 ''<marquee>'')) = Inr (''marquee>'', [(Some ''<'', None)])"
proof -
  let ?st = "initial_state [] 8 ''<marquee>''"
  let ?sg = "\<lparr>psz_text = Some [], style = None, p_next = None\<rparr>"
  have 1: "p_segment ?st = Some 0" by (simp add: initial_state_def text_segment_New_def alloc_def)
  have 2: "segments (mem ?st) 0 = Some ?sg"
    by (simp add: initial_state_def text_segment_New_def alloc_def c_str_def)
  have 3: "psz_text ?sg = Some []" by simp
  have 4: "NUL \<notin> set []" by simp
  have 5: "fst (alloc (mem ?st))" by (simp add: initial_state_def text_segment_New_def alloc_def)
  have p: "psz_subtitle ?st = ''<marquee>''"
    by (simp add: initial_state_def text_segment_New_def alloc_def c_str_def)
  have u0: "unknown_open_tag ''<marquee>''" by code_simp
  have u: "unknown_open_tag (psz_subtitle ?st)" unfolding p by (rule u0)
  have o: "ordinary_character ''marquee>''" by (simp add: ordinary_character_def at_def)
  from unknown_open_tag_literal[OF 1 2 3 4 5, of example_env] u
  have b: "body example_env ?st = Inr (Continue (appended ?st 0 ?sg ''<''))" by simp
  show ?thesis
    using u0 o unfolding b
    by (simp add: appended_def initial_state_def text_segment_New_def alloc_def c_str_def)
qed

subsection \<open>Where the code departs from the specification\<close>

text \<open>In the \<^verbatim>\<open></\<close> branch the name is compared from the \<^verbatim>\<open><\<close> on, over the length
  counted from the \<^verbatim>\<open><\<close>: no closing tag is recognized, and every \<^verbatim>\<open></\<close> is the
  literal \<^verbatim>\<open><\<close>.\<close>

lemma closing_tag_never_pops:
  assumes "strncmp (psz_subtitle st) ''</'' 2 = 0"
  shows "closing_tag E st = append_unchecked st (CHR ''<'') (tl (psz_subtitle st))"
proof -
  have l2: "length ''</'' = 2" by simp
  have nn: "NUL \<notin> set ''</''" by simp
  from assms strncmp_literal[OF nn, of "psz_subtitle st"]
  have "take 2 (psz_subtitle st) = ''</''" unfolding l2 by simp
  then obtain xs where s: "psz_subtitle st = CHR ''<'' # xs"
    by (cases "psz_subtitle st") auto
  from closing_tag_literal[OF s] s show ?thesis by simp
qed

text \<open>
  C1. What the code does on \<^verbatim>\<open><b>bold</b> normal\<close>: the closing tag is not recognized,
  the style stack is not popped and no third segment is opened. The chain is the first
  segment with the empty text and one bold segment whose text is \<^verbatim>\<open>bold</b> normal\<close>.
\<close>

theorem closing_bold_tag_is_literal:
  "parsed_segments (ParseSubtitles E [] align ''<b>bold</b> normal'') =
     Inr (Some [(Some [], None),
                (Some ''bold</b> normal'',
                 Some ((default_style E)\<lparr>i_style_flags := i_style_flags (default_style E) OR STYLE_BOLD E\<rparr>))])"
  by code_simp

text \<open>\<^verbatim>\<open>ConsumeAttribute\<close> stops on the \<^verbatim>\<open>=\<close> and tests that character for a quote:
  the value it returns starts with \<^verbatim>\<open>=\<close> and ends before the next letter.\<close>

lemma ConsumeAttribute_value:
  assumes "ConsumeAttribute h s = (h', Some (name, val, s'))"
  shows "val \<noteq> [] \<and> hd val = CHR ''='' \<and> (\<forall>c \<in> set val. \<not> isalpha c)"
proof -
  define s1 where "s1 = dropWhile (\<lambda>c. c = CHR '' '') s"
  define s2 where "s2 = dropWhile isalpha s1"
  define s3 where "s3 = dropWhile (\<lambda>c. c \<noteq> CHR ''='') s2"
  define s4 where "s4 = dropWhile isspace s3"
  define s5 where "s5 = dropWhile isspace s4"
  define delimiter where "delimiter = (if at s4 0 = SQUOTE \<or> at s4 0 = DQUOTE then at s4 0 else NUL)"
  define inside where
    "inside = (\<lambda>c. (delimiter \<noteq> NUL \<and> c \<noteq> delimiter) \<or> (delimiter = NUL \<and> \<not> isalpha c))"
  from assms have v: "val = takeWhile inside s5" and ne: "dropWhile inside s5 \<noteq> []"
    unfolding ConsumeAttribute_def Let_def
    by (auto simp: s1_def s2_def s3_def s4_def s5_def delimiter_def inside_def
        split: if_splits prod.splits bool.splits)
  from ne have s5ne: "s5 \<noteq> []" by auto
  have s3ne: "s3 \<noteq> []" using s5ne unfolding s5_def s4_def by auto
  then have hd3: "hd s3 = CHR ''=''"
    unfolding s3_def using hd_dropWhile[of "\<lambda>c. c \<noteq> CHR ''=''" s2] by auto
  have nsp: "\<not> isspace (CHR ''='')" by (simp add: isspace_def)
  have s43: "s4 = s3" unfolding s4_def using s3ne hd3 nsp by (cases s3) auto
  have s54: "s5 = s3" unfolding s5_def s43 using s3ne hd3 nsp by (cases s3) auto
  have del: "delimiter = NUL" unfolding delimiter_def s43 using s3ne hd3 by (cases s3) (auto simp: at_def)
  have ins: "inside = (\<lambda>c. \<not> isalpha c)" unfolding inside_def del by simp
  have "inside (CHR ''='')" unfolding ins by (simp add: isalpha_def)
  then have "val \<noteq> [] \<and> hd val = CHR ''=''"
    unfolding v s54 using s3ne hd3 by (cases s3) auto
  moreover have "\<forall>c \<in> set val. \<not> isalpha c"
    unfolding v ins by (auto dest: set_takeWhileD)
  ultimately show ?thesis by simp
qed

text \<open>
  C5. What the code does on the attribute list \<^verbatim>\<open>color="Red">\<close>: no delimiter is
  recorded, the value is \<^verbatim>\<open>="\<close> and the cursor is left on \<^verbatim>\<open>Red">\<close>, before the
  text between the quotes.
\<close>

theorem quoted_value_not_delimited:
  "snd (ConsumeAttribute \<lparr>segments = Map.empty, styles = Map.empty, brk = 0, allocs = []\<rparr>
          (''color='' @ [DQUOTE] @ ''Red'' @ [DQUOTE] @ ''>'')) =
     Some (''color'', [CHR ''='', DQUOTE], ''Red'' @ [DQUOTE] @ ''>'')"
  by code_simp

text \<open>No name of the table starts with \<^verbatim>\<open>=\<close>, so the colour of every attribute value is 0.\<close>

lemma tolower_equals_sign: "tolower y = CHR ''='' \<longleftrightarrow> y = CHR ''=''"
proof (cases "65 \<le> (of_char y :: nat) \<and> (of_char y :: nat) \<le> 90")
  case True
  then have "(of_char (tolower y) :: nat) = of_char y + 32"
    by (simp add: tolower_def Let_def)
  with True have "(of_char (tolower y) :: nat) \<noteq> of_char (CHR ''='')" by simp
  then have "tolower y \<noteq> CHR ''=''" by metis
  moreover from True have "y \<noteq> CHR ''=''" by auto
  ultimately show ?thesis by simp
next
  case False
  then show ?thesis by (auto simp: tolower_def Let_def)
qed

lemma GetColor_from_equals_sign:
  "list_all (\<lambda>(n, v). at n 0 \<noteq> CHR ''='') tbl \<Longrightarrow> GetColor_from tbl (CHR ''='' # v) = 0"
proof (induction tbl)
  case Nil then show ?case by simp
next
  case (Cons e tbl)
  obtain n i where e: "e = (n, i)" by (cases e)
  from Cons.prems e have n0: "at n 0 \<noteq> CHR ''=''"
    and rest: "list_all (\<lambda>(n, v). at n 0 \<noteq> CHR ''='') tbl" by auto
  have "strcasecmp (CHR ''='' # v) n \<noteq> 0"
  proof (cases n)
    case Nil then show ?thesis by (simp add: tolower_def)
  next
    case (Cons y ys)
    with n0 have "y \<noteq> CHR ''=''" by (simp add: at_def)
    then have "tolower y \<noteq> CHR ''=''" by (simp add: tolower_equals_sign)
    moreover have "tolower (CHR ''='') = CHR ''=''" by (simp add: tolower_def)
    ultimately have ne: "tolower (CHR ''='') \<noteq> tolower y" by simp
    then have "(of_char (tolower (CHR ''='')) :: nat) \<noteq> of_char (tolower y)"
      by (simp only: of_char_eq_iff not_False_eq_True)
    then have "int (of_char (tolower (CHR ''=''))) - int (of_char (tolower y)) \<noteq> 0" by linarith
    with Cons ne show ?thesis by simp
  qed
  with Cons.IH[OF rest] e show ?case by simp
qed

lemma no_color_name_starts_with_equals_sign:
  "list_all (\<lambda>(n, v). at n 0 \<noteq> CHR ''='') p_html_colors"
  by (simp add: p_html_colors_def at_def)

lemma GetColor_of_attribute_value:
  assumes "ConsumeAttribute h s = (h', Some (name, val, s'))"
  shows "GetColor val = 0"
proof -
  from ConsumeAttribute_value[OF assms] obtain v where "val = CHR ''='' # v"
    by (cases val) auto
  then show ?thesis
    unfolding GetColor_def
    by (simp add: GetColor_from_equals_sign[OF no_color_name_starts_with_equals_sign])
qed

text \<open>
  C2. What the code does on \<^verbatim>\<open><font color="Red">Red</font>Plain\<close>: the colour is
  looked up for the value \<^verbatim>\<open>="\<close>, which no name of the table equals, so the font
  colour is 0; the cursor stops on the \<^verbatim>\<open>>\<close> of the tag, which becomes text with
  the rest of the markup; the closing tag is not recognized and no segment follows.
\<close>

theorem font_color_not_resolved:
  "parsed_segments
     (ParseSubtitles E [] align (''<font color='' @ [DQUOTE] @ ''Red'' @ [DQUOTE] @ ''>Red</font>Plain'')) =
     Inr (Some [(Some [], None),
                (Some (''>Red</font>Plain''), Some ((default_style E)\<lparr>i_font_color := 0\<rparr>))])"
  by code_simp

text \<open>
  C3. What the code does when an allocation fails. On the input \<^verbatim>\<open>a\<close>, when the
  allocation of \<^verbatim>\<open>AppendCharacter\<close> fails, the character is dropped and the chain is
  returned. On the input \<^verbatim>\<open><b>\<close>, when the allocation of the new segment fails,
  the \<^verbatim>\<open>NULL\<close> that \<^verbatim>\<open>NewTextSegmentPushStyle\<close> returns is dereferenced.
\<close>

theorem allocation_failure_not_reported:
  "parsed_segments (ParseSubtitles E [True, False] align ''a'') = Inr (Some [(Some [], None)]) \<and>
   parsed_segments (ParseSubtitles E [True, False] align ''<b>'') = Inl NULL_dereference"
  by code_simp

text \<open>
  C6. What the code does when the stack is empty at a pop: \<^verbatim>\<open>PopStyle\<close> reads
  \<^verbatim>\<open>p_old->p_next\<close> through the \<^verbatim>\<open>NULL\<close> stack pointer before the test for an empty
  stack. The parse of \<^verbatim>\<open></b>\<close> does not reach the pop: the tag is text.
\<close>

theorem pop_on_empty_stack_dereferences_null:
  "map_sum id fst (NewTextSegmentPopStyle E (example_heap\<lparr>allocs := []\<rparr>) (Some 0) []) =
     Inl NULL_dereference \<and>
   parsed_segments (ParseSubtitles E [] align ''</b>'') = Inr (Some [(Some ''</b>'', None)])"
  by code_simp

text \<open>
  C10. What the code does on the input \<^verbatim>\<open>{\<close>: the third test on \<^verbatim>\<open>{\<close> reads
  \<^verbatim>\<open>psz_subtitle[2]\<close>, the byte after the terminator.
\<close>

theorem brace_at_end_reads_past_terminator:
  "map_sum id (\<lambda>(p, st). oob st) (ParseSubtitles E [] align ''{'') = Inr True"
  by (simp add: ParseSubtitles_def initial_state_def text_segment_New_def alloc_def
      ParseSubtitles_loop.simps body_def at_def strchr_def append_unchecked_def
      AppendCharacter_def c_str_def)

end
